theory Spec2Isabelle
  imports Main
begin

section \<open>catpath: the data model\<close>

text \<open>
  The command line's request, \<^verbatim>\<open>struct PathArgs\<close> of \<^verbatim>\<open>catpath.cpp\<close>.
\<close>

record PathArgs =
  arg_vec :: "string list"
  sep :: char
  allow_dups :: bool
  force :: bool
  "help" :: bool
  expand :: bool

text \<open>
  The C++ exceptions the program can raise: \<^verbatim>\<open>runtime_error\<close> with its message
  (thrown by \<^verbatim>\<open>get_opts\<close>), and \<^verbatim>\<open>out_of_range\<close> (thrown by \<^verbatim>\<open>string::at\<close>),
  which is a \<^verbatim>\<open>logic_error\<close> and so reaches the second handler of \<^verbatim>\<open>main\<close>.
\<close>

datatype exn = RuntimeError string | OutOfRange

text \<open>
  What the program reads from outside: the environment variables, the file system as
  \<^verbatim>\<open>stat\<close> sees it (\<open>None\<close> when \<^verbatim>\<open>stat\<close> returns \<open>-1\<close>: no such file, a component
  that is not a directory, search permission denied), whether the C library's \<^verbatim>\<open>getopt\<close>
  permutes the arguments (glibc does unless \<^verbatim>\<open>POSIXLY_CORRECT\<close> is set), the library's
  \<^verbatim>\<open>basename\<close>, and the text of \<^verbatim>\<open>out_of_range::what()\<close>.
\<close>

datatype file_type = Directory | Regular | Special

record env =
  getenv :: "string \<Rightarrow> string option"
  stat :: "string \<Rightarrow> file_type option"
  getopt_permutes :: bool
  basename :: "string \<Rightarrow> string"
  out_of_range_what :: string

section \<open>C strings\<close>

text \<open>
  A \<^verbatim>\<open>const char *\<close> into a NUL-terminated buffer is the list of the bytes from the
  pointer to the end of the buffer; the terminator itself is not in the list.
  \<open>deref\<close> is \<^verbatim>\<open>*p\<close>, \<open>tl\<close> is \<^verbatim>\<open>++p\<close>. Advancing past the terminator leaves the
  buffer: that is undefined behaviour, the result \<open>None\<close> of the functions below.
\<close>

definition NUL :: char where
  "NUL = CHR 0x00"

fun deref :: "string \<Rightarrow> char" where
  "deref [] = NUL"
| "deref (c # cs) = c"

section \<open>The tokenizer: \<^verbatim>\<open>parse_path\<close>\<close>

text \<open>\<^verbatim>\<open>while( sep == *start ) ++start;\<close>\<close>

fun skip_seps :: "char \<Rightarrow> string \<Rightarrow> string option" where
  "skip_seps s [] = (if s = NUL then None else Some [])"
| "skip_seps s (c # cs) = (if s = c then skip_seps s cs else Some (c # cs))"

text \<open>\<^verbatim>\<open>while( *stop && *stop != sep ) ++stop;\<close> returns the bytes passed over and \<open>stop\<close>.\<close>

fun find_stop :: "char \<Rightarrow> string \<Rightarrow> string \<times> string" where
  "find_stop s [] = ([], [])"
| "find_stop s (c # cs) =
     (if c \<noteq> NUL \<and> c \<noteq> s
      then (case find_stop s cs of (tok, stop) \<Rightarrow> (c # tok, stop))
      else ([], c # cs))"

lemma skip_seps_length: "skip_seps s p = Some q \<Longrightarrow> length q \<le> length p"
  by (induction p) (auto split: if_splits)

lemma find_stop_length: "find_stop s p = (tok, q) \<Longrightarrow> length q \<le> length p"
  by (induction p arbitrary: tok q) (auto split: if_splits prod.splits)

lemma parse_loop_decreases:
  assumes "skip_seps s start = Some start'" and "deref start' \<noteq> NUL"
    and "find_stop s (tl start') = (tok, stop)"
  shows "length stop < length start"
proof -
  from assms(2) have ne: "start' \<noteq> []"
    by (cases start') auto
  from assms(3) have "length stop \<le> length (tl start')"
    by (rule find_stop_length)
  with ne have "length stop < length start'"
    by (cases start') auto
  with skip_seps_length [OF assms(1)] show ?thesis
    by simp
qed

text \<open>
  The outer loop of \<^verbatim>\<open>parse_path\<close>. The token pushed is \<^verbatim>\<open>string( start, stop )\<close>,
  where \<open>stop\<close> begins at \<^verbatim>\<open>start + 1\<close>.
\<close>

function parse_loop :: "char \<Rightarrow> string \<Rightarrow> string list \<Rightarrow> string list option" where
  "parse_loop s start vec =
     (case skip_seps s start of
        None \<Rightarrow> None
      | Some start' \<Rightarrow>
          if deref start' = NUL then Some vec
          else (case find_stop s (tl start') of
                  (tok, stop) \<Rightarrow> parse_loop s stop (vec @ [hd start' # tok])))"
  by pat_completeness auto
termination
  by (relation "measure (\<lambda>(s, start, vec). length start)")
    (auto intro: parse_loop_decreases [OF _ _ sym])

declare parse_loop.simps [simp del]

text \<open>\<^verbatim>\<open>parse_path\<close>; the pointer \<open>path\<close> may be \<^verbatim>\<open>NULL\<close> (\<open>None\<close>).\<close>

definition parse_path :: "string option \<Rightarrow> string list \<Rightarrow> char \<Rightarrow> string list option" where
  "parse_path path vec s =
     (case path of
        None \<Rightarrow> Some vec
      | Some p \<Rightarrow> if deref p = NUL then Some vec else parse_loop s p vec)"

section \<open>The assembler: \<^verbatim>\<open>build_path\<close>\<close>

text \<open>\<^verbatim>\<open>string::at\<close> throws \<^verbatim>\<open>out_of_range\<close> when the position is not below the size.\<close>

definition at :: "string \<Rightarrow> nat \<Rightarrow> exn + char" where
  "at str pos = (if pos < length str then Inr (str ! pos) else Inl OutOfRange)"

text \<open>\<^verbatim>\<open>is_dir\<close>: \<^verbatim>\<open>stat\<close> succeeds and the mode is a directory's.\<close>

definition is_dir :: "env \<Rightarrow> string \<Rightarrow> bool" where
  "is_dir e dirname = (case stat e dirname of Some Directory \<Rightarrow> True | _ \<Rightarrow> False)"

text \<open>
  Lines 145 to 157: the tilde is replaced by the home directory. The conjunction is
  evaluated from the left and stops at the first false operand, so \<^verbatim>\<open>at( 1 )\<close> is only
  reached when expansion is on and the first character is a tilde. \<open>home\<close> is the local
  variable that caches \<^verbatim>\<open>getenv( "HOME" )\<close>; the result is the new \<open>curr_path\<close> and the
  new \<open>home\<close>.
\<close>

definition expand_tilde ::
    "env \<Rightarrow> PathArgs \<Rightarrow> string option \<Rightarrow> string \<Rightarrow> exn + string \<times> string option" where
  "expand_tilde e a home curr_path =
     (if \<not> expand a then Inr (curr_path, home)
      else case at curr_path 0 of
        Inl x \<Rightarrow> Inl x
      | Inr c0 \<Rightarrow>
          if CHR ''~'' \<noteq> c0 then Inr (curr_path, home)
          else case at curr_path 1 of
            Inl x \<Rightarrow> Inl x
          | Inr c1 \<Rightarrow>
              if CHR ''/'' \<noteq> c1 then Inr (curr_path, home)
              else let home' = (if home = None then getenv e ''HOME'' else home)
                   in case home' of
                        None \<Rightarrow> Inr (curr_path, home')
                      | Some h \<Rightarrow> Inr (h @ drop 1 curr_path, home'))"

text \<open>Line 159: \<^verbatim>\<open>! path_args.force && '/' == curr_path.at( 0 )\<close>.\<close>

definition wants_check :: "PathArgs \<Rightarrow> string \<Rightarrow> exn + bool" where
  "wants_check a curr_path =
     (if force a then Inr False
      else case at curr_path 0 of Inl x \<Rightarrow> Inl x | Inr c0 \<Rightarrow> Inr (CHR ''/'' = c0))"

text \<open>
  The loop of \<^verbatim>\<open>build_path\<close> over the remaining elements of \<open>arg_vec\<close>, with the local
  variables \<open>home\<close>, \<open>dir_set\<close> and the output \<open>path\<close> as they stand.
\<close>

fun build_loop ::
    "env \<Rightarrow> PathArgs \<Rightarrow> string list \<Rightarrow> string option \<Rightarrow> string set \<Rightarrow> string \<Rightarrow> exn + string" where
  "build_loop e a [] home dir_set path = Inr path"
| "build_loop e a (t # ts) home dir_set path =
     (case expand_tilde e a home t of
        Inl x \<Rightarrow> Inl x
      | Inr (curr_path, home') \<Rightarrow>
          (case wants_check a curr_path of
             Inl x \<Rightarrow> Inl x
           | Inr chk \<Rightarrow>
               if chk \<and> \<not> is_dir e curr_path then build_loop e a ts home' dir_set path
               else if \<not> allow_dups a \<and> curr_path \<in> dir_set
                 then build_loop e a ts home' dir_set path
               else build_loop e a ts home'
                      (if allow_dups a then dir_set else insert curr_path dir_set)
                      ((if path \<noteq> [] then path @ [sep a] else path) @ curr_path)))"

definition build_path :: "env \<Rightarrow> PathArgs \<Rightarrow> exn + string" where
  "build_path e a = build_loop e a (arg_vec a) None {} []"

section \<open>The command line: \<^verbatim>\<open>getopt\<close> and \<^verbatim>\<open>get_opts\<close>\<close>

text \<open>
  \<^verbatim>\<open>getopt\<close> belongs to the C library. Its state: the elements of \<open>argv\<close> from \<open>optind\<close>
  on that were not looked at yet, the option characters left in the element being read,
  the non-options passed over (a permuting \<^verbatim>\<open>getopt\<close> moves them behind the options),
  \<open>optarg\<close> and \<open>optopt\<close>.
\<close>

record getopt_state =
  unscanned :: "string list"
  nextchar :: string
  nonopts :: "string list"
  optarg :: string
  optopt :: char

definition optstring :: string where
  "optstring = '':dfhs:x''"

text \<open>
  The place of an option character in the option string: \<open>None\<close> when it is no option,
  otherwise whether a colon follows it (the option takes an argument).
\<close>

fun lookup_opt :: "string \<Rightarrow> char \<Rightarrow> bool option" where
  "lookup_opt [] c = None"
| "lookup_opt (x # xs) c = (if x = c then Some (deref xs = CHR '':'') else lookup_opt xs c)"

text \<open>An element is an option element when it starts with a dash and has a second character.\<close>

definition is_option :: "string \<Rightarrow> bool" where
  "is_option arg = (deref arg = CHR ''-'' \<and> deref (tl arg) \<noteq> NUL)"

text \<open>
  Looking for the next option element: a \<open>--\<close> ends the options and is consumed; a
  non-option ends them too, unless \<^verbatim>\<open>getopt\<close> permutes, when it is passed over. The result
  is the option characters of the element found, if any, the elements left and the
  non-options passed over.
\<close>

fun next_element ::
    "bool \<Rightarrow> string list \<Rightarrow> string list \<Rightarrow> string option \<times> string list \<times> string list" where
  "next_element perm [] skipped = (None, [], skipped)"
| "next_element perm (arg # args) skipped =
     (if arg = ''--'' then (None, args, skipped)
      else if is_option arg then (Some (tl arg), args, skipped)
      else if perm then next_element perm args (skipped @ [arg])
      else (None, arg # args, skipped))"

text \<open>
  Reading one option character. A colon is never an option. An option that takes an
  argument takes the rest of its element, or else the next element; when there is none,
  the result is a colon, because the option string starts with one.
\<close>

definition take_option :: "getopt_state \<Rightarrow> char option \<times> getopt_state" where
  "take_option g =
     (let c = deref (nextchar g); rest = tl (nextchar g) in
      case (if c = CHR '':'' then None else lookup_opt optstring c) of
        None \<Rightarrow> (Some (CHR ''?''), g\<lparr>nextchar := rest, optopt := c\<rparr>)
      | Some False \<Rightarrow> (Some c, g\<lparr>nextchar := rest\<rparr>)
      | Some True \<Rightarrow>
          if rest \<noteq> [] then (Some c, g\<lparr>nextchar := [], optarg := rest\<rparr>)
          else (case unscanned g of
                  [] \<Rightarrow> (Some (CHR '':''), g\<lparr>nextchar := [], optopt := c\<rparr>)
                | arg # args \<Rightarrow> (Some c, g\<lparr>nextchar := [], unscanned := args, optarg := arg\<rparr>)))"

text \<open>One call of \<^verbatim>\<open>getopt\<close>: \<open>None\<close> is the result \<open>-1\<close>.\<close>

definition getopt :: "bool \<Rightarrow> getopt_state \<Rightarrow> char option \<times> getopt_state" where
  "getopt perm g =
     (if nextchar g \<noteq> [] then take_option g
      else case next_element perm (unscanned g) (nonopts g) of
        (None, args, skipped) \<Rightarrow> (None, g\<lparr>unscanned := args, nonopts := skipped\<rparr>)
      | (Some cs, args, skipped) \<Rightarrow>
          take_option (g\<lparr>unscanned := args, nextchar := cs, nonopts := skipped\<rparr>))"

text \<open>What is left for \<^verbatim>\<open>getopt\<close> to read; every call that returns an option lowers it.\<close>

definition unread :: "getopt_state \<Rightarrow> nat" where
  "unread g = length (nextchar g) + sum_list (map (\<lambda>arg. Suc (length arg)) (unscanned g))"

lemma next_element_unread:
  "next_element perm args skipped = (Some cs, args', skipped') \<Longrightarrow>
   cs \<noteq> [] \<and> length cs + sum_list (map (\<lambda>arg. Suc (length arg)) args')
     \<le> sum_list (map (\<lambda>arg. Suc (length arg)) args)"
proof (induction perm args skipped rule: next_element.induct)
  case (1 perm skipped)
  then show ?case by simp
next
  case (2 perm arg args skipped)
  consider (dd) "arg = ''--''" | (opt) "arg \<noteq> ''--''" "is_option arg"
    | (non) "arg \<noteq> ''--''" "\<not> is_option arg"
    by blast
  then show ?case
  proof cases
    case dd
    with "2.prems" show ?thesis by simp
  next
    case opt
    with "2.prems" have eq: "cs = tl arg" "args' = args"
      by auto
    from opt have "tl arg \<noteq> []"
      by (cases "tl arg") (auto simp: is_option_def)
    with eq show ?thesis
      by (cases arg) auto
  next
    case non
    with "2.prems" have "perm"
      and "next_element perm args (skipped @ [arg]) = (Some cs, args', skipped')"
      by (auto split: if_splits)
    with non "2.IH" have "cs \<noteq> [] \<and> length cs + sum_list (map (\<lambda>arg. Suc (length arg)) args')
        \<le> sum_list (map (\<lambda>arg. Suc (length arg)) args)"
      by blast
    then show ?thesis
      by simp
  qed
qed

lemma take_option_unread:
  "nextchar g \<noteq> [] \<Longrightarrow> take_option g = (r, g') \<Longrightarrow> unread g' < unread g"
  by (cases "nextchar g")
    (auto simp: take_option_def unread_def Let_def split: option.splits bool.splits
      list.splits if_splits)

lemma getopt_unread:
  assumes "getopt perm g = (Some opt, g')"
  shows "unread g' < unread g"
proof (cases "nextchar g \<noteq> []")
  case True
  with assms show ?thesis
    by (auto simp: getopt_def intro: take_option_unread)
next
  case False
  with assms obtain cs args skipped where
      ne: "next_element perm (unscanned g) (nonopts g) = (Some cs, args, skipped)"
    and tk: "take_option (g\<lparr>unscanned := args, nextchar := cs, nonopts := skipped\<rparr>) = (Some opt, g')"
    by (auto simp: getopt_def split: prod.splits option.splits)
  from next_element_unread [OF ne]
  have "cs \<noteq> []" and "unread (g\<lparr>unscanned := args, nextchar := cs, nonopts := skipped\<rparr>) \<le> unread g"
    using False by (auto simp: unread_def)
  moreover from \<open>cs \<noteq> []\<close> tk
  have "unread g' < unread (g\<lparr>unscanned := args, nextchar := cs, nonopts := skipped\<rparr>)"
    by (auto intro: take_option_unread)
  ultimately show ?thesis
    by simp
qed

text \<open>The state before the first call: \<open>optind\<close> is 1, nothing was read.\<close>

definition getopt_start :: "string list \<Rightarrow> getopt_state" where
  "getopt_start args =
     \<lparr>unscanned = args, nextchar = [], nonopts = [], optarg = [], optopt = CHR ''?''\<rparr>"

definition DEFAULT_SEP :: char where
  "DEFAULT_SEP = CHR '':''"

text \<open>
  The loop of \<^verbatim>\<open>get_opts\<close>: one call of \<^verbatim>\<open>getopt\<close>, then the \<^verbatim>\<open>switch\<close>. \<open>sep_found\<close> is
  the local flag of that name.
\<close>

function get_opts_loop ::
    "bool \<Rightarrow> getopt_state \<Rightarrow> PathArgs \<Rightarrow> bool \<Rightarrow> exn + PathArgs \<times> getopt_state" where
  "get_opts_loop perm g a sep_found =
     (case getopt perm g of
        (None, g') \<Rightarrow> Inr (a, g')
      | (Some opt, g') \<Rightarrow>
          if opt = CHR ''d'' then get_opts_loop perm g' (a\<lparr>allow_dups := True\<rparr>) sep_found
          else if opt = CHR ''f'' then get_opts_loop perm g' (a\<lparr>force := True\<rparr>) sep_found
          else if opt = CHR ''h'' then get_opts_loop perm g' (a\<lparr>help := True\<rparr>) sep_found
          else if opt = CHR ''s'' then
            (if NUL = deref (optarg g')
               then Inl (RuntimeError ''Specified separator is an empty string'')
             else if NUL \<noteq> deref (tl (optarg g'))
               then Inl (RuntimeError ''Specified separator consists of multiple characters'')
             else if sep_found \<and> deref (optarg g') \<noteq> sep a
               then Inl (RuntimeError ''Conflicting specifications for separator character'')
             else get_opts_loop perm g' (a\<lparr>sep := deref (optarg g')\<rparr>) True)
          else if opt = CHR ''x'' then get_opts_loop perm g' (a\<lparr>expand := True\<rparr>) sep_found
          else if opt = CHR '':'' then
            Inl (RuntimeError (''Required argument missing on -'' @ [optopt g'] @ '' option''))
          else if opt = CHR ''?'' then
            Inl (RuntimeError (''Invalid option -'' @ [optopt g'] @ '' on command line''))
          else
            Inl (RuntimeError (''Internal error: unexpected value ''
                   @ [CHR 0x27, optopt g', CHR 0x27] @ '' of optopt'')))"
  by pat_completeness auto
termination
  by (relation "measure (\<lambda>(perm, g, a, sep_found). unread g)")
    (auto intro: getopt_unread [OF sym])

declare get_opts_loop.simps [simp del]

text \<open>
  \<^verbatim>\<open>get_opts\<close> on the arguments after \<open>argv[0]\<close>: the defaults, then the loop. With the
  options it returns the arguments from \<open>optind\<close> on, which \<^verbatim>\<open>main\<close> reads next.
\<close>

definition get_opts :: "env \<Rightarrow> string list \<Rightarrow> PathArgs \<Rightarrow> exn + PathArgs \<times> string list" where
  "get_opts e args path_args =
     (case get_opts_loop (getopt_permutes e) (getopt_start args)
             (path_args\<lparr>sep := DEFAULT_SEP, allow_dups := False, force := False,
                help := False, expand := False\<rparr>)
             False of
        Inl x \<Rightarrow> Inl x
      | Inr (a, g) \<Rightarrow> Inr (a, nonopts g @ unscanned g))"

section \<open>\<^verbatim>\<open>main\<close>\<close>

definition show_help :: "string \<Rightarrow> string" where
  "show_help name =
     ''Usaage: '' @ name @ '' [OPTION...] PATH...\<newline>\<newline>''
     @ ''Concatenate directory paths into a list.  Each PATH is a list\<newline>''
     @ ''of one or more directory paths, separated by a designated\<newline>''
     @ ''separator character (see -s option).\<newline>\<newline>''
     @ ''  -d  allow duplicate paths\<newline>''
     @ ''  -f  include a path even if the directory doesn't exist\<newline>''
     @ ''  -h  display this help text\<newline>''
     @ ''  -s  specify a character used to separate paths\<newline>''
     @ ''      (defaults to '' @ [CHR 0x27, DEFAULT_SEP, CHR 0x27] @ '')\<newline>''
     @ ''  -x  replace tildes ('' @ [CHR 0x27] @ ''~'' @ [CHR 0x27]
     @ '') with the user's home directory\<newline>\<newline>''
     @ ''Report '' @ name @ '' bugs to mck9@swbell.net\<newline>''"

text \<open>What a run leaves behind: the exit code and what was written to the two streams.\<close>

record outcome =
  exit_code :: int
  stdout :: string
  stderr :: string

text \<open>The two handlers of \<^verbatim>\<open>main\<close>.\<close>

fun report :: "env \<Rightarrow> string \<Rightarrow> exn \<Rightarrow> outcome" where
  "report e prog (RuntimeError what) =
     \<lparr>exit_code = 1, stdout = [],
      stderr = basename e prog @ '': '' @ what @ ''\<newline>''\<rparr>"
| "report e prog OutOfRange =
     \<lparr>exit_code = 1, stdout = [],
      stderr = basename e prog @ '': Exception encountered: '' @ out_of_range_what e @ ''\<newline>''\<rparr>"

text \<open>
  The loop of \<^verbatim>\<open>main\<close> over the arguments from \<open>optind\<close> on; none of them is a null
  pointer, the null pointer ends the loop.
\<close>

fun parse_args :: "string list \<Rightarrow> string list \<Rightarrow> char \<Rightarrow> string list option" where
  "parse_args [] vec s = Some vec"
| "parse_args (arg # args) vec s =
     (case parse_path (Some arg) vec s of
        None \<Rightarrow> None
      | Some vec' \<Rightarrow> parse_args args vec' s)"

text \<open>
  The declaration \<^verbatim>\<open>PathArgs path_args;\<close> of \<^verbatim>\<open>main\<close>: the vector is constructed empty, the
  other fields hold no value yet and \<^verbatim>\<open>get_opts\<close> assigns every one of them.
\<close>

definition new_path_args :: PathArgs where
  "new_path_args =
     \<lparr>arg_vec = [], sep = NUL, allow_dups = False, force = False, help = False,
      expand = False\<rparr>"

text \<open>\<^verbatim>\<open>main\<close> for the program name \<open>argv[0]\<close> and the arguments after it.\<close>

definition main :: "env \<Rightarrow> string \<Rightarrow> string list \<Rightarrow> outcome option" where
  "main e prog args =
     (case get_opts e args new_path_args of
        Inl x \<Rightarrow> Some (report e prog x)
      | Inr (path_args, rest) \<Rightarrow>
          if help path_args
            then Some \<lparr>exit_code = 0, stdout = show_help (basename e prog), stderr = []\<rparr>
          else (case parse_args rest (arg_vec path_args) (sep path_args) of
                  None \<Rightarrow> None
                | Some vec \<Rightarrow>
                    (case build_path e (path_args\<lparr>arg_vec := vec\<rparr>) of
                       Inl x \<Rightarrow> Some (report e prog x)
                     | Inr path \<Rightarrow>
                         Some \<lparr>exit_code = 0, stdout = path @ ''\<newline>'', stderr = []\<rparr>)))"

section \<open>Notions used to state the properties\<close>

text \<open>
  A token as the tokenizer makes them: not empty, and free of the separator and of the
  terminator.
\<close>

definition good_token :: "char \<Rightarrow> string \<Rightarrow> bool" where
  "good_token s t = (t \<noteq> [] \<and> s \<notin> set t \<and> NUL \<notin> set t)"

text \<open>The strings of a list with one separator between neighbours.\<close>

fun join :: "char \<Rightarrow> string list \<Rightarrow> string" where
  "join s [] = []"
| "join s [c] = c"
| "join s (c # d # cs) = c @ s # join s (d # cs)"

text \<open>
  What \<^verbatim>\<open>build_path\<close> appends: the loop's two statements
  \<^verbatim>\<open>if( ! path.empty() ) path += sep; path += curr_path;\<close> for each string of a list.
\<close>

definition append_paths :: "char \<Rightarrow> string \<Rightarrow> string list \<Rightarrow> string" where
  "append_paths s path cs = foldl (\<lambda>p c. (if p \<noteq> [] then p @ [s] else p) @ c) path cs"

text \<open>
  The value of a token after home expansion, when \<^verbatim>\<open>string::at\<close> does not throw on it.
\<close>

definition expanded :: "env \<Rightarrow> PathArgs \<Rightarrow> string \<Rightarrow> string" where
  "expanded e a t =
     (if expand a \<and> take 2 t = ''~/''
      then (case getenv e ''HOME'' of None \<Rightarrow> t | Some h \<Rightarrow> h @ drop 1 t)
      else t)"

text \<open>The tokens on which one of the calls of \<^verbatim>\<open>string::at\<close> throws.\<close>

definition throws :: "PathArgs \<Rightarrow> string \<Rightarrow> bool" where
  "throws a t = (if expand a then t = [] \<or> t = ''~'' else \<not> force a \<and> t = [])"

text \<open>The expanded tokens the existence check lets through.\<close>

definition admitted :: "env \<Rightarrow> PathArgs \<Rightarrow> string \<Rightarrow> bool" where
  "admitted e a c = (force a \<or> take 1 c \<noteq> ''/'' \<or> is_dir e c)"

text \<open>The strings of a list that are not in \<open>seen\<close> and did not occur earlier in the list.\<close>

fun first_seen :: "string set \<Rightarrow> string list \<Rightarrow> string list" where
  "first_seen seen [] = []"
| "first_seen seen (c # cs) =
     (if c \<in> seen then first_seen seen cs else c # first_seen (insert c seen) cs)"

definition survivors :: "env \<Rightarrow> PathArgs \<Rightarrow> string set \<Rightarrow> string list \<Rightarrow> string list" where
  "survivors e a seen ts =
     (let cs = filter (admitted e a) (map (expanded e a) ts)
      in if allow_dups a then cs else first_seen seen cs)"

text \<open>
  The specification's reading of deduplication: the element at a position stays exactly
  when no earlier position holds an equal one.
\<close>

definition spec_first_occurrences :: "string list \<Rightarrow> string list" where
  "spec_first_occurrences cs =
     map (\<lambda>i. cs ! i) (filter (\<lambda>i. cs ! i \<notin> set (take i cs)) [0..<length cs])"

text \<open>Two separators side by side somewhere in a string.\<close>

fun doubled :: "char \<Rightarrow> string \<Rightarrow> bool" where
  "doubled s (x # y # zs) = ((x = s \<and> y = s) \<or> doubled s (y # zs))"
| "doubled s zs = False"

text \<open>A string with no separator at either end and no two side by side.\<close>

definition separators_clean :: "char \<Rightarrow> string \<Rightarrow> bool" where
  "separators_clean s out = (\<not> doubled s out \<and> (out \<noteq> [] \<longrightarrow> hd out \<noteq> s \<and> last out \<noteq> s))"

text \<open>A string that is not empty and clean in that sense.\<close>

definition tidy :: "char \<Rightarrow> string \<Rightarrow> bool" where
  "tidy s c = (c \<noteq> [] \<and> separators_clean s c)"

text \<open>
  What the successive calls of \<^verbatim>\<open>getopt\<close> report on a command line, up to the call that
  returns \<open>-1\<close>: each option character with \<open>optarg\<close> as it stands after the call.
\<close>

function getopt_trace :: "bool \<Rightarrow> getopt_state \<Rightarrow> (char \<times> string) list" where
  "getopt_trace perm g =
     (case getopt perm g of
        (None, g') \<Rightarrow> []
      | (Some opt, g') \<Rightarrow> (opt, optarg g') # getopt_trace perm g')"
  by pat_completeness auto
termination
  by (relation "measure (\<lambda>(perm, g). unread g)") (auto intro: getopt_unread [OF sym])

declare getopt_trace.simps [simp del]

definition options_given :: "env \<Rightarrow> string list \<Rightarrow> (char \<times> string) list" where
  "options_given e args =
     getopt_trace (getopt_permutes e) (getopt_start args)"

text \<open>
  Environments for the examples: a user whose home directory is \<^verbatim>\<open>/home/alice\<close> on a
  system with the directories \<^verbatim>\<open>/usr/bin\<close>, \<^verbatim>\<open>/usr/local/bin\<close> and \<^verbatim>\<open>/home/alice/bin\<close>
  and the file \<^verbatim>\<open>/etc/passwd\<close>; the same system with \<^verbatim>\<open>HOME\<close> unset, for the user
  whose home directory is \<^verbatim>\<open>/root\<close>, and for one whose \<^verbatim>\<open>HOME\<close> is \<^verbatim>\<open>~/alice\<close>.
\<close>

definition env_alice :: env where
  "env_alice =
     \<lparr>getenv = (\<lambda>name. if name = ''HOME'' then Some ''/home/alice'' else None),
      stat = (\<lambda>p. if p = ''/usr/bin'' \<or> p = ''/usr/local/bin'' \<or> p = ''/home/alice/bin''
                     then Some Directory
                   else if p = ''/etc/passwd'' then Some Regular else None),
      getopt_permutes = True,
      basename = (\<lambda>p. p),
      out_of_range_what = ''basic_string::at''\<rparr>"

definition env_no_home :: env where
  "env_no_home = env_alice\<lparr>getenv := (\<lambda>name. None)\<rparr>"

definition env_root :: env where
  "env_root = env_alice\<lparr>getenv := (\<lambda>name. if name = ''HOME'' then Some ''/root'' else None)\<rparr>"

definition env_tilde :: env where
  "env_tilde = env_alice\<lparr>getenv := (\<lambda>name. if name = ''HOME'' then Some ''~/alice'' else None)\<rparr>"

section \<open>The tokenizer produces no empty token\<close>

lemma find_stop_eq:
  "find_stop s p = (takeWhile (\<lambda>c. c \<noteq> NUL \<and> c \<noteq> s) p, dropWhile (\<lambda>c. c \<noteq> NUL \<and> c \<noteq> s) p)"
  by (induction p) auto

lemma skip_seps_total: "s \<noteq> NUL \<Longrightarrow> skip_seps s p = Some (dropWhile (\<lambda>c. c = s) p)"
  by (induction p) auto

lemma skip_seps_deref: "skip_seps s p = Some q \<Longrightarrow> deref q \<noteq> s"
  by (induction p) (auto split: if_splits)

lemma parse_loop_appends:
  "parse_loop s p vec = Some r \<Longrightarrow> \<exists>toks. r = vec @ toks \<and> (\<forall>t\<in>set toks. good_token s t)"
proof (induction s p vec arbitrary: r rule: parse_loop.induct)
  case (1 s start vec)
  from "1.prems" obtain start' where sk: "skip_seps s start = Some start'"
    by (subst (asm) parse_loop.simps) (auto split: option.splits)
  show ?case
  proof (cases "deref start' = NUL")
    case True
    with sk "1.prems" have "r = vec"
      by (subst (asm) parse_loop.simps) simp
    then show ?thesis by simp
  next
    case False
    obtain tok stop where fs: "find_stop s (tl start') = (tok, stop)"
      by (cases "find_stop s (tl start')")
    with sk False "1.prems" have rec: "parse_loop s stop (vec @ [hd start' # tok]) = Some r"
      by (subst (asm) parse_loop.simps) simp
    from "1.IH" [OF sk False fs [symmetric] rec]
    obtain toks where r: "r = (vec @ [hd start' # tok]) @ toks" and g: "\<forall>t\<in>set toks. good_token s t"
      by blast
    from False have ne: "start' \<noteq> []" by (cases start') auto
    with False skip_seps_deref [OF sk] have hd: "hd start' \<noteq> NUL" "hd start' \<noteq> s"
      by (cases start'; simp)+
    from fs have "tok = takeWhile (\<lambda>c. c \<noteq> NUL \<and> c \<noteq> s) (tl start')"
      by (simp add: find_stop_eq)
    then have "s \<notin> set tok" "NUL \<notin> set tok"
      by (auto dest: set_takeWhileD)
    with hd have "good_token s (hd start' # tok)"
      by (auto simp: good_token_def)
    with r g show ?thesis
      by (intro exI [of _ "(hd start' # tok) # toks"]) simp
  qed
qed

lemma parse_loop_total: "s \<noteq> NUL \<Longrightarrow> parse_loop s p vec \<noteq> None"
proof (induction s p vec rule: parse_loop.induct)
  case (1 s start vec)
  let ?q = "dropWhile (\<lambda>c. c = s) start"
  from "1.prems" have sk: "skip_seps s start = Some ?q"
    by (rule skip_seps_total)
  show ?case
  proof (cases "deref ?q = NUL")
    case True
    with sk show ?thesis
      by (subst parse_loop.simps) simp
  next
    case False
    obtain tok stop where fs: "find_stop s (tl ?q) = (tok, stop)"
      by (cases "find_stop s (tl ?q)")
    from "1.IH" [OF sk False fs [symmetric] "1.prems"] sk False fs show ?thesis
      by (subst parse_loop.simps) simp
  qed
qed

lemma parse_loop_prepend:
  "parse_loop s p (v @ w) = map_option ((@) v) (parse_loop s p w)"
proof (induction s p w rule: parse_loop.induct)
  case (1 s start w)
  show ?case
  proof (cases "skip_seps s start")
    case None
    then show ?thesis by (simp add: parse_loop.simps)
  next
    case (Some start')
    show ?thesis
    proof (cases "deref start' = NUL")
      case True
      with Some show ?thesis by (simp add: parse_loop.simps)
    next
      case False
      obtain tok stop where fs: "find_stop s (tl start') = (tok, stop)"
        by (cases "find_stop s (tl start')")
      have a: "parse_loop s start (v @ w) = parse_loop s stop (v @ w @ [hd start' # tok])"
        using Some False fs by (subst parse_loop.simps) simp
      have b: "parse_loop s start w = parse_loop s stop (w @ [hd start' # tok])"
        using Some False fs by (subst parse_loop.simps) simp
      show ?thesis
        unfolding a b by (rule "1.IH" [OF Some False fs [symmetric]])
    qed
  qed
qed

lemma parse_loop_cons:
  assumes "good_token s t" and "s \<noteq> NUL"
  shows "parse_loop s (t @ s # rest) vec = parse_loop s rest (vec @ [t])"
proof -
  from assms obtain c cs where t: "t = c # cs" and c: "c \<noteq> s" "c \<noteq> NUL"
    and cs: "s \<notin> set cs" "NUL \<notin> set cs"
    by (cases t) (auto simp: good_token_def)
  have sk: "skip_seps s (t @ s # rest) = Some (t @ s # rest)"
    using t c by simp
  from cs have fs: "find_stop s (cs @ s # rest) = (cs, s # rest)"
    by (induction cs) auto
  have "parse_loop s (t @ s # rest) vec = parse_loop s (s # rest) (vec @ [t])"
    using sk fs t c by (subst parse_loop.simps) simp
  also have "\<dots> = parse_loop s rest (vec @ [t])"
    using assms(2) by (subst parse_loop.simps, subst (2) parse_loop.simps) simp
  finally show ?thesis .
qed

lemma parse_loop_NUL: "parse_loop NUL p vec = None"
proof (induction "NUL" p vec rule: parse_loop.induct)
  case (1 start vec)
  show ?case
  proof (cases "skip_seps NUL start")
    case None
    then show ?thesis by (simp add: parse_loop.simps)
  next
    case (Some start')
    from skip_seps_deref [OF Some] have nz: "deref start' \<noteq> NUL" .
    obtain tok stop where fs: "find_stop NUL (tl start') = (tok, stop)"
      by (cases "find_stop NUL (tl start')")
    from "1.hyps" [OF Some nz fs [symmetric]] Some nz fs show ?thesis
      by (subst parse_loop.simps) simp
  qed
qed

lemma find_stop_split:
  assumes "find_stop s p = (tok, stop)"
  shows "p = tok @ stop \<and> s \<notin> set tok \<and> NUL \<notin> set tok"
  using assms by (induction p arbitrary: tok) (auto split: if_splits prod.splits)

lemma cstring_skip:
  assumes "s \<noteq> NUL"
  shows "filter (\<lambda>c. c \<noteq> s) (takeWhile (\<lambda>c. c \<noteq> NUL) (dropWhile (\<lambda>c. c = s) p))
       = filter (\<lambda>c. c \<noteq> s) (takeWhile (\<lambda>c. c \<noteq> NUL) p)"
  using assms by (induction p) auto

lemma cstring_token:
  assumes "s \<notin> set tok" and "NUL \<notin> set tok"
  shows "filter (\<lambda>c. c \<noteq> s) (takeWhile (\<lambda>c. c \<noteq> NUL) (tok @ stop))
       = tok @ filter (\<lambda>c. c \<noteq> s) (takeWhile (\<lambda>c. c \<noteq> NUL) stop)"
  using assms by (induction tok) auto

lemma cstring_empty: "deref q = NUL \<Longrightarrow> takeWhile (\<lambda>c. c \<noteq> NUL) q = []"
  by (cases q) auto

lemma parse_loop_concat:
  "s \<noteq> NUL \<Longrightarrow> parse_loop s p vec = Some r \<Longrightarrow>
   concat r = concat vec @ filter (\<lambda>c. c \<noteq> s) (takeWhile (\<lambda>c. c \<noteq> NUL) p)"
proof (induction s p vec arbitrary: r rule: parse_loop.induct)
  case (1 s start vec)
  let ?q = "dropWhile (\<lambda>c. c = s) start"
  let ?F = "\<lambda>p. filter (\<lambda>c. c \<noteq> s) (takeWhile (\<lambda>c. c \<noteq> NUL) p)"
  from "1.prems"(1) have sk: "skip_seps s start = Some ?q"
    by (rule skip_seps_total)
  have F: "?F start = ?F ?q"
    using cstring_skip [OF "1.prems"(1), of start] by simp
  show ?case
  proof (cases "deref ?q = NUL")
    case True
    with sk "1.prems"(2) have "r = vec"
      by (subst (asm) parse_loop.simps) simp
    moreover from cstring_empty [OF True] have "?F ?q = []"
      by simp
    ultimately show ?thesis
      using F by simp
  next
    case False
    obtain tok stop where fs: "find_stop s (tl ?q) = (tok, stop)"
      by (cases "find_stop s (tl ?q)")
    from sk False fs "1.prems"(2) have rec: "parse_loop s stop (vec @ [hd ?q # tok]) = Some r"
      by (subst (asm) parse_loop.simps) simp
    from "1.IH" [OF sk False fs [symmetric] "1.prems"(1) rec]
    have r: "concat r = concat vec @ (hd ?q # tok) @ ?F stop"
      by simp
    from False obtain c rest where q: "?q = c # rest" and c: "c \<noteq> NUL"
      by (cases ?q) auto
    from skip_seps_deref [OF sk] q have cs: "c \<noteq> s"
      by simp
    from find_stop_split [OF fs] q have "rest = tok @ stop" "s \<notin> set tok" "NUL \<notin> set tok"
      by simp_all
    with cstring_token [of s tok stop] have "?F rest = tok @ ?F stop"
      by simp
    with q c cs have "?F ?q = (hd ?q # tok) @ ?F stop"
      by simp
    with r F show ?thesis
      by simp
  qed
qed

text \<open>
  Claim C6. \<^verbatim>\<open>parse_path\<close> leaves the vector as it is on a null pointer and on an
  empty string. Whenever it returns, the vector it leaves is the caller's vector with
  tokens appended, none of them empty and none holding a separator, and the appended
  tokens are the same whatever the caller's vector held. It returns for every separator
  other than the terminator, the one character \<^verbatim>\<open>get_opts\<close> never accepts, and the tokens
  it appends then are, one after the other, the input string with its separators left
  out: nothing but separators is dropped.
\<close>

theorem parse_path_appends_nonempty_tokens:
  "parse_path None vec s = Some vec
   \<and> parse_path (Some []) vec s = Some vec
   \<and> (\<forall>r. parse_path path vec s = Some r \<longrightarrow>
         (\<exists>toks. r = vec @ toks \<and> [] \<notin> set toks \<and> (\<forall>t\<in>set toks. s \<notin> set t)
            \<and> parse_path path [] s = Some toks))
   \<and> (s \<noteq> NUL \<longrightarrow> parse_path path vec s \<noteq> None)
   \<and> (s \<noteq> NUL \<longrightarrow>
        (\<forall>p r. parse_path (Some p) vec s = Some r \<longrightarrow>
           concat r = concat vec @ filter (\<lambda>c. c \<noteq> s) (takeWhile (\<lambda>c. c \<noteq> NUL) p)))"
proof (intro conjI allI impI)
  show "parse_path None vec s = Some vec"
    by (simp add: parse_path_def)
  show "parse_path (Some []) vec s = Some vec"
    by (simp add: parse_path_def)
next
  fix r
  assume r: "parse_path path vec s = Some r"
  show "\<exists>toks. r = vec @ toks \<and> [] \<notin> set toks \<and> (\<forall>t\<in>set toks. s \<notin> set t)
      \<and> parse_path path [] s = Some toks"
  proof (cases "path = None \<or> deref (the path) = NUL")
    case True
    with r have "r = vec" and "parse_path path [] s = Some []"
      by (auto simp: parse_path_def split: option.splits)
    then show ?thesis by simp
  next
    case False
    then obtain p where p: "path = Some p" "deref p \<noteq> NUL"
      by auto
    with r have pl: "parse_loop s p vec = Some r"
      by (simp add: parse_path_def)
    from parse_loop_appends [OF pl] obtain toks
      where toks: "r = vec @ toks" "\<forall>t\<in>set toks. good_token s t"
      by blast
    from pl parse_loop_prepend [of s p vec "[]"] toks(1)
    have "parse_loop s p [] = Some toks"
      by (cases "parse_loop s p []") auto
    with p toks show ?thesis
      by (auto simp: parse_path_def good_token_def)
  qed
next
  assume "s \<noteq> NUL"
  from parse_loop_total [OF this] show "parse_path path vec s \<noteq> None"
    by (simp add: parse_path_def split: option.splits)
next
  fix p r
  assume s: "s \<noteq> NUL" and r: "parse_path (Some p) vec s = Some r"
  show "concat r = concat vec @ filter (\<lambda>c. c \<noteq> s) (takeWhile (\<lambda>c. c \<noteq> NUL) p)"
  proof (cases "deref p = NUL")
    case True
    with r have "r = vec"
      by (simp add: parse_path_def)
    with cstring_empty [OF True] show ?thesis
      by simp
  next
    case False
    with r have "parse_loop s p vec = Some r"
      by (simp add: parse_path_def)
    with s show ?thesis
      by (rule parse_loop_concat)
  qed
qed

theorem parse_path_appends_nonempty_tokens_witness:
  "CHR '':'' \<noteq> NUL
   \<and> parse_path (Some ''::a::b:'') [''q''] (CHR '':'') = Some [''q'', ''a'', ''b'']
   \<and> (\<exists>toks. [''q'', ''a'', ''b''] = [''q''] @ toks \<and> [] \<notin> set toks
         \<and> (\<forall>t\<in>set toks. CHR '':'' \<notin> set t)
         \<and> parse_path (Some ''::a::b:'') [] (CHR '':'') = Some toks)"
proof -
  have a: "CHR '':'' \<noteq> NUL"
    by (simp add: NUL_def)
  have b: "parse_path (Some ''::a::b:'') [''q''] (CHR '':'') = Some [''q'', ''a'', ''b'']"
    by (simp add: parse_path_def parse_loop.simps NUL_def)
  from parse_path_appends_nonempty_tokens [of "[''q'']" "CHR '':''" "Some ''::a::b:''"] a b
  show ?thesis
    by blast
qed

section \<open>What \<^verbatim>\<open>build_path\<close> computes\<close>

lemma expand_tilde_eq:
  assumes "home = None \<or> home = getenv e ''HOME''"
  shows "expand_tilde e a home t =
     (if expand a \<and> (t = [] \<or> t = ''~'') then Inl OutOfRange
      else Inr (expanded e a t,
                if expand a \<and> take 2 t = ''~/'' then getenv e ''HOME'' else home))"
proof (cases t)
  case Nil
  then show ?thesis
    by (simp add: expand_tilde_def at_def expanded_def)
next
  case (Cons c0 cs)
  show ?thesis
  proof (cases cs)
    case Nil
    with Cons show ?thesis
      by (auto simp: expand_tilde_def at_def expanded_def)
  next
    case (Cons c1 r)
    with \<open>t = c0 # cs\<close> assms show ?thesis
      by (auto simp: expand_tilde_def at_def expanded_def Let_def split: option.splits)
  qed
qed

lemma wants_check_eq:
  "wants_check a c =
     (if force a then Inr False else if c = [] then Inl OutOfRange else Inr (take 1 c = ''/''))"
  by (cases c) (auto simp: wants_check_def at_def)

lemma expanded_Nil: "\<not> throws a t \<Longrightarrow> \<not> force a \<Longrightarrow> expanded e a t \<noteq> []"
  by (cases t) (auto simp: expanded_def throws_def split: option.splits if_splits)

lemma survivors_Cons:
  "survivors e a seen (t # ts) =
     (let c = expanded e a t in
      if \<not> admitted e a c then survivors e a seen ts
      else if \<not> allow_dups a \<and> c \<in> seen then survivors e a seen ts
      else c # survivors e a (if allow_dups a then seen else insert c seen) ts)"
  by (simp add: survivors_def Let_def)

lemma append_paths_Cons:
  "append_paths s path (c # cs) = append_paths s ((if path \<noteq> [] then path @ [s] else path) @ c) cs"
  by (simp add: append_paths_def)

lemma build_loop_eq:
  assumes "home = None \<or> home = getenv e ''HOME''"
  shows "build_loop e a ts home seen path =
     (if \<exists>t\<in>set ts. throws a t then Inl OutOfRange
      else Inr (append_paths (sep a) path (survivors e a seen ts)))"
  using assms
proof (induction ts arbitrary: home seen path)
  case Nil
  then show ?case
    by (simp add: append_paths_def survivors_def)
next
  case (Cons t ts)
  let ?home' = "if expand a \<and> take 2 t = ''~/'' then getenv e ''HOME'' else home"
  let ?c = "expanded e a t"
  have inv: "?home' = None \<or> ?home' = getenv e ''HOME''"
    using Cons.prems by simp
  note IH = Cons.IH [OF inv]
  note ex = expand_tilde_eq [OF Cons.prems, of a t]
  show ?case
  proof (cases "throws a t")
    case True
    show ?thesis
    proof (cases "expand a")
      case True
      with \<open>throws a t\<close> ex show ?thesis
        by (simp add: throws_def)
    next
      case False
      with \<open>throws a t\<close> have "\<not> force a" "t = []"
        by (simp_all add: throws_def)
      with False ex show ?thesis
        by (simp add: wants_check_eq expanded_def throws_def)
    qed
  next
    case False
    then have et: "expand_tilde e a home t = Inr (?c, ?home')"
      using ex by (auto simp: throws_def split: if_splits)
    have wc: "wants_check a ?c = Inr (\<not> force a \<and> take 1 ?c = ''/'')"
      using expanded_Nil [OF False, of e] by (simp add: wants_check_eq)
    have adm: "admitted e a ?c = (\<not> ((\<not> force a \<and> take 1 ?c = ''/'') \<and> \<not> is_dir e ?c))"
      by (auto simp: admitted_def)
    show ?thesis
      using False
      by (simp add: et wc IH survivors_Cons [of e a seen t ts] append_paths_Cons Let_def adm)
  qed
qed

lemma append_paths_join:
  "[] \<notin> set cs \<Longrightarrow>
   append_paths s path cs =
     (if cs = [] then path else if path = [] then join s cs else path @ s # join s cs)"
proof (induction cs arbitrary: path)
  case Nil
  then show ?case by (simp add: append_paths_def)
next
  case (Cons c cs)
  then have c: "c \<noteq> []" and cs: "[] \<notin> set cs"
    by auto
  let ?p = "(if path \<noteq> [] then path @ [s] else path) @ c"
  from c have p: "?p \<noteq> []"
    by simp
  have "append_paths s path (c # cs) = append_paths s ?p cs"
    by (rule append_paths_Cons)
  also have "\<dots> = (if cs = [] then ?p else ?p @ s # join s cs)"
    using p by (simp only: Cons.IH [OF cs] if_False)
  also have "\<dots> = (if path = [] then join s (c # cs) else path @ s # join s (c # cs))"
    by (cases cs) simp_all
  finally show ?case
    by simp
qed

lemma expanded_nonempty: "t \<noteq> [] \<Longrightarrow> expanded e a t \<noteq> []"
  by (cases t) (auto simp: expanded_def split: option.splits)

lemma set_first_seen: "set (first_seen seen cs) = set cs - seen"
  by (induction cs arbitrary: seen) auto

lemma distinct_first_seen: "distinct (first_seen seen cs)"
  by (induction cs arbitrary: seen) (auto simp: set_first_seen)

lemma set_survivors:
  "set (survivors e a seen ts) \<subseteq> expanded e a ` set ts"
  by (auto simp: survivors_def Let_def set_first_seen)

lemma survivors_nonempty: "[] \<notin> set ts \<Longrightarrow> [] \<notin> set (survivors e a seen ts)"
  using set_survivors [of e a seen ts] expanded_nonempty [of _ e a]
  by (metis (no_types, lifting) imageE subsetD)

lemma first_seen_index:
  "first_seen seen cs =
     map (\<lambda>i. cs ! i) (filter (\<lambda>i. cs ! i \<notin> seen \<union> set (take i cs)) [0..<length cs])"
proof (induction cs arbitrary: seen)
  case Nil
  then show ?case by simp
next
  case (Cons c cs)
  have upt: "[0..<length (c # cs)] = 0 # map Suc [0..<length cs]"
    by (simp add: upt_conv_Cons map_Suc_upt del: upt_Suc)
  have tail: "map (\<lambda>i. (c # cs) ! i)
        (filter (\<lambda>i. (c # cs) ! i \<notin> seen \<union> set (take i (c # cs))) (map Suc [0..<length cs]))
      = first_seen (insert c seen) cs"
    by (simp add: filter_map comp_def Cons.IH conj_ac)
  show ?case
  proof (cases "c \<in> seen")
    case True
    then have "insert c seen = seen" by auto
    with True tail show ?thesis
      unfolding upt by simp
  next
    case False
    with tail show ?thesis
      unfolding upt by simp
  qed
qed

lemma first_seen_spec: "first_seen {} cs = spec_first_occurrences cs"
  by (simp add: first_seen_index spec_first_occurrences_def)

lemma build_path_eq:
  "build_path e a =
     (if \<exists>t\<in>set (arg_vec a). throws a t then Inl OutOfRange
      else Inr (append_paths (sep a) [] (survivors e a {} (arg_vec a))))"
  by (simp add: build_path_def build_loop_eq)

lemma build_path_join:
  assumes "[] \<notin> set (arg_vec a)" and "build_path e a = Inr out"
  shows "out = join (sep a) (survivors e a {} (arg_vec a))"
  using assms survivors_nonempty [OF assms(1), of e a "{}"]
  by (auto simp: build_path_eq append_paths_join split: if_splits)

lemma throws_tilde: "[] \<notin> set ts \<Longrightarrow> (\<exists>t\<in>set ts. throws a t) = (expand a \<and> ''~'' \<in> set ts)"
  by (auto simp: throws_def)

lemma admitted_stat_cong:
  assumes "\<forall>p. take 1 p = ''/'' \<longrightarrow> f p = stat e p"
  shows "admitted (e\<lparr>stat := f\<rparr>) a c = admitted e a c"
  using assms by (auto simp: admitted_def is_dir_def)

lemma survivors_stat_cong:
  assumes "\<forall>p. take 1 p = ''/'' \<longrightarrow> f p = stat e p"
  shows "survivors (e\<lparr>stat := f\<rparr>) a seen ts = survivors e a seen ts"
proof -
  have "admitted (e\<lparr>stat := f\<rparr>) a = admitted e a"
    using admitted_stat_cong [OF assms] by (rule ext)
  moreover have "expanded (e\<lparr>stat := f\<rparr>) a = expanded e a"
    by (rule ext) (simp add: expanded_def)
  ultimately show ?thesis
    by (simp add: survivors_def)
qed

lemma survivors_admitted: "c \<in> set (survivors e a seen ts) \<Longrightarrow> admitted e a c"
  by (auto simp: survivors_def Let_def set_first_seen split: if_splits)

lemma survivors_relative:
  assumes "t \<in> set ts" and "take 1 (expanded e a t) \<noteq> ''/''"
  shows "expanded e a t \<in> set (survivors e a {} ts)"
  using assms by (auto simp: survivors_def Let_def set_first_seen admitted_def)

text \<open>
  Claim C1, which the code breaks. With expansion on, the token \<^verbatim>\<open>~\<close> passes the test of
  its first character, and \<^verbatim>\<open>curr_path.at( 1 )\<close> then throws \<^verbatim>\<open>out_of_range\<close>: the
  assembly is abandoned, nothing is written to standard output and the exit code is 1.
\<close>

theorem build_path_single_tilde_throws:
  "build_path e (a\<lparr>arg_vec := [''~''], expand := True\<rparr>) = Inl OutOfRange
   \<and> main e prog [''-x'', ''~'']
       = Some \<lparr>exit_code = 1, stdout = [],
               stderr = basename e prog @ '': Exception encountered: ''
                 @ out_of_range_what e @ ''\<newline>''\<rparr>"
proof
  show "build_path e (a\<lparr>arg_vec := [''~''], expand := True\<rparr>) = Inl OutOfRange"
    by (simp add: build_path_def expand_tilde_def at_def)
  show "main e prog [''-x'', ''~'']
       = Some \<lparr>exit_code = 1, stdout = [],
               stderr = basename e prog @ '': Exception encountered: ''
                 @ out_of_range_what e @ ''\<newline>''\<rparr>"
    by (cases "getopt_permutes e")
      (simp_all add: main_def new_path_args_def get_opts_def get_opts_loop.simps getopt_def getopt_start_def
        take_option_def optstring_def is_option_def NUL_def DEFAULT_SEP_def parse_path_def
        parse_loop.simps build_path_def expand_tilde_def at_def)
qed

text \<open>
  Claim C4. Without \<^verbatim>\<open>-d\<close>, on tokens none of which is empty, \<^verbatim>\<open>build_path\<close> returns
  the expanded tokens that pass the existence check, each kept at its first occurrence
  only, joined by the separator; the comparison is between expanded values. It throws
  exactly when expansion is on and some token is \<^verbatim>\<open>~\<close>.
\<close>

theorem build_path_keeps_first_occurrences:
  assumes "\<not> allow_dups a" and "[] \<notin> set (arg_vec a)"
  shows "build_path e a =
     (if expand a \<and> ''~'' \<in> set (arg_vec a) then Inl OutOfRange
      else Inr (join (sep a)
             (spec_first_occurrences (filter (admitted e a) (map (expanded e a) (arg_vec a))))))
    \<and> distinct (spec_first_occurrences (filter (admitted e a) (map (expanded e a) (arg_vec a))))"
proof -
  let ?cs = "filter (admitted e a) (map (expanded e a) (arg_vec a))"
  have sv: "survivors e a {} (arg_vec a) = spec_first_occurrences ?cs"
    using assms(1) by (simp add: survivors_def first_seen_spec)
  have ne: "[] \<notin> set (survivors e a {} (arg_vec a))"
    using assms(2) by (rule survivors_nonempty)
  have "distinct (spec_first_occurrences ?cs)"
    using distinct_first_seen [of "{}" ?cs] by (simp add: first_seen_spec)
  moreover have "build_path e a =
     (if expand a \<and> ''~'' \<in> set (arg_vec a) then Inl OutOfRange
      else Inr (join (sep a) (spec_first_occurrences ?cs)))"
    using ne by (simp add: build_path_eq throws_tilde [OF assms(2)] append_paths_join sv)
  ultimately show ?thesis
    by simp
qed

theorem build_path_keeps_first_occurrences_witness:
  "build_path env_alice
     \<lparr>arg_vec = [''~/bin'', ''/opt/bin'', ''/home/alice/bin'', ''/opt/bin''], sep = CHR '':'',
      allow_dups = False, force = True, help = False, expand = True\<rparr>
   = Inr ''/home/alice/bin:/opt/bin''"
  using build_path_keeps_first_occurrences [of
     "\<lparr>arg_vec = [''~/bin'', ''/opt/bin'', ''/home/alice/bin'', ''/opt/bin''], sep = CHR '':'',
      allow_dups = False, force = True, help = False, expand = True\<rparr>" env_alice]
  by (simp add: spec_first_occurrences_def expanded_def admitted_def env_alice_def upt_rec)

text \<open>
  Claim C5. Without \<^verbatim>\<open>-f\<close>, on tokens none of which is empty: every string of the output
  that starts with a slash is an existing directory, every expanded token that does not
  start with a slash is in the output, the result is the same on any file system that
  agrees on the paths starting with a slash, and whether \<^verbatim>\<open>build_path\<close> throws does not
  depend on the file system at all.
\<close>

theorem build_path_existence_filter:
  assumes "\<not> force a" and "[] \<notin> set (arg_vec a)"
  shows "(\<exists>cs. build_path e a =
            (if expand a \<and> ''~'' \<in> set (arg_vec a) then Inl OutOfRange
             else Inr (join (sep a) cs))
          \<and> (\<forall>c\<in>set cs. take 1 c = ''/'' \<longrightarrow> is_dir e c)
          \<and> (\<forall>t\<in>set (arg_vec a). take 1 (expanded e a t) \<noteq> ''/'' \<longrightarrow> expanded e a t \<in> set cs))
     \<and> ((\<forall>p. take 1 p = ''/'' \<longrightarrow> f p = stat e p) \<longrightarrow>
          build_path (e\<lparr>stat := f\<rparr>) a = build_path e a)
     \<and> ((\<exists>x. build_path (e\<lparr>stat := f\<rparr>) a = Inl x) = (\<exists>x. build_path e a = Inl x))"
proof (intro conjI impI)
  let ?cs = "survivors e a {} (arg_vec a)"
  have ne: "[] \<notin> set ?cs"
    using assms(2) by (rule survivors_nonempty)
  have "build_path e a =
      (if expand a \<and> ''~'' \<in> set (arg_vec a) then Inl OutOfRange else Inr (join (sep a) ?cs))"
    using ne by (simp add: build_path_eq throws_tilde [OF assms(2)] append_paths_join)
  moreover have "\<forall>c\<in>set ?cs. take 1 c = ''/'' \<longrightarrow> is_dir e c"
    using assms(1) by (auto dest: survivors_admitted simp: admitted_def)
  moreover have "\<forall>t\<in>set (arg_vec a). take 1 (expanded e a t) \<noteq> ''/'' \<longrightarrow> expanded e a t \<in> set ?cs"
    by (auto intro: survivors_relative)
  ultimately show "\<exists>cs. build_path e a =
            (if expand a \<and> ''~'' \<in> set (arg_vec a) then Inl OutOfRange
             else Inr (join (sep a) cs))
          \<and> (\<forall>c\<in>set cs. take 1 c = ''/'' \<longrightarrow> is_dir e c)
          \<and> (\<forall>t\<in>set (arg_vec a). take 1 (expanded e a t) \<noteq> ''/'' \<longrightarrow> expanded e a t \<in> set cs)"
    by blast
next
  assume "\<forall>p. take 1 p = ''/'' \<longrightarrow> f p = stat e p"
  then show "build_path (e\<lparr>stat := f\<rparr>) a = build_path e a"
    by (simp add: build_path_eq survivors_stat_cong)
next
  show "(\<exists>x. build_path (e\<lparr>stat := f\<rparr>) a = Inl x) = (\<exists>x. build_path e a = Inl x)"
    by (simp add: build_path_eq)
qed

theorem build_path_existence_filter_witness:
  "build_path env_alice
     \<lparr>arg_vec = [''/no/such/dir'', ''bin'', ''/etc/passwd'', ''/usr/bin''], sep = CHR '':'',
      allow_dups = False, force = False, help = False, expand = False\<rparr>
     = Inr ''bin:/usr/bin''
   \<and> (\<exists>cs. ''bin:/usr/bin'' = join (CHR '':'') cs
         \<and> (\<forall>c\<in>set cs. take 1 c = ''/'' \<longrightarrow> is_dir env_alice c)
         \<and> ''bin'' \<in> set cs)"
proof -
  let ?a = "\<lparr>arg_vec = [''/no/such/dir'', ''bin'', ''/etc/passwd'', ''/usr/bin''], sep = CHR '':'',
      allow_dups = False, force = False, help = False, expand = False\<rparr>"
  have run: "build_path env_alice ?a = Inr ''bin:/usr/bin''"
    by (simp add: build_path_def expand_tilde_def wants_check_def at_def is_dir_def env_alice_def)
  from build_path_existence_filter [of ?a env_alice "stat env_alice"]
  obtain cs where "build_path env_alice ?a = Inr (join (CHR '':'') cs)"
    and "\<forall>c\<in>set cs. take 1 c = ''/'' \<longrightarrow> is_dir env_alice c"
    and "\<forall>t\<in>set (arg_vec ?a). take 1 (expanded env_alice ?a t) \<noteq> ''/'' \<longrightarrow> expanded env_alice ?a t \<in> set cs"
    by auto
  with run show ?thesis
    by (intro conjI exI [of _ cs]) (auto simp: expanded_def)
qed

text \<open>
  Claim C7. With expansion on and \<^verbatim>\<open>HOME\<close> unset, a token that starts with \<^verbatim>\<open>~/\<close> is left
  as it is and nothing is thrown; a run over tokens that are neither empty nor \<^verbatim>\<open>~\<close>
  gives what it gives with expansion off.
\<close>

theorem build_path_home_unset:
  assumes "getenv e ''HOME'' = None" and "expand a"
  shows "expand_tilde e a None (''~/'' @ r) = Inr (''~/'' @ r, None)
     \<and> build_path e (a\<lparr>arg_vec := [''~/'' @ r]\<rparr>) = Inr (''~/'' @ r)
     \<and> ([] \<notin> set (arg_vec a) \<and> ''~'' \<notin> set (arg_vec a) \<longrightarrow>
          build_path e a = build_path e (a\<lparr>expand := False\<rparr>))"
proof (intro conjI impI)
  show "expand_tilde e a None (''~/'' @ r) = Inr (''~/'' @ r, None)"
    using assms by (simp add: expand_tilde_def at_def)
  then show "build_path e (a\<lparr>arg_vec := [''~/'' @ r]\<rparr>) = Inr (''~/'' @ r)"
    using assms by (simp add: build_path_def expand_tilde_def wants_check_def at_def)
next
  assume ok: "[] \<notin> set (arg_vec a) \<and> ''~'' \<notin> set (arg_vec a)"
  have ex: "expanded e a = expanded e (a\<lparr>expand := False\<rparr>)"
    using assms(1) by (intro ext) (simp add: expanded_def)
  have ad: "admitted e a = admitted e (a\<lparr>expand := False\<rparr>)"
    by (intro ext) (simp add: admitted_def)
  have "survivors e a {} (arg_vec a) = survivors e (a\<lparr>expand := False\<rparr>) {} (arg_vec a)"
    by (simp add: survivors_def ex [symmetric] ad [symmetric])
  moreover have "\<not> (\<exists>t\<in>set (arg_vec a). throws a t)"
    "\<not> (\<exists>t\<in>set (arg_vec a). throws (a\<lparr>expand := False\<rparr>) t)"
    using ok by (auto simp: throws_def)
  ultimately show "build_path e a = build_path e (a\<lparr>expand := False\<rparr>)"
    by (simp add: build_path_eq)
qed

theorem build_path_home_unset_witness:
  "getenv env_no_home ''HOME'' = None
   \<and> build_path env_no_home
        \<lparr>arg_vec = [''~/bin''], sep = CHR '':'', allow_dups = False, force = False,
         help = False, expand = True\<rparr>
      = Inr ''~/bin''"
proof -
  have h: "getenv env_no_home ''HOME'' = None"
    by (simp add: env_no_home_def)
  from build_path_home_unset [OF h, of
      "\<lparr>arg_vec = [], sep = CHR '':'', allow_dups = False, force = False,
        help = False, expand = True\<rparr>" "''bin''"] h
  show ?thesis
    by simp
qed

section \<open>Separators in the output\<close>

lemma doubled_append:
  "doubled s (u @ v) =
     (doubled s u \<or> doubled s v \<or> (u \<noteq> [] \<and> v \<noteq> [] \<and> last u = s \<and> hd v = s))"
proof (induction u)
  case Nil
  then show ?case by simp
next
  case (Cons x u)
  show ?case
  proof (cases u)
    case Nil
    then show ?thesis by (cases v) auto
  next
    case (Cons y zs)
    with Cons.IH show ?thesis by auto
  qed
qed

lemma not_doubled_free: "s \<notin> set u \<Longrightarrow> \<not> doubled s u"
  by (induction s u rule: doubled.induct) auto

lemma join_nonempty: "cs \<noteq> [] \<Longrightarrow> [] \<notin> set cs \<Longrightarrow> join s cs \<noteq> [] \<and> hd (join s cs) = hd (hd cs)"
  by (induction s cs rule: join.induct) auto

lemma join_tidy:
  "\<forall>c\<in>set cs. tidy s c \<Longrightarrow> separators_clean s (join s cs)"
proof (induction s cs rule: join.induct)
  case (1 s)
  then show ?case by (simp add: separators_clean_def)
next
  case (2 s c)
  then show ?case by (simp add: tidy_def)
next
  case (3 s c d cs)
  let ?j = "join s (d # cs)"
  from "3.prems" have c: "c \<noteq> []" "\<not> doubled s c" "hd c \<noteq> s" "last c \<noteq> s"
    and d: "d \<noteq> []" "hd d \<noteq> s" and rest: "\<forall>c\<in>set (d # cs). tidy s c"
    by (auto simp: tidy_def separators_clean_def)
  from rest have "[] \<notin> set (d # cs)"
    by (auto simp: tidy_def)
  with join_nonempty [of "d # cs" s] have j: "?j \<noteq> []" "hd ?j = hd d"
    by auto
  from "3.IH" [OF rest] j have jc: "\<not> doubled s ?j" "last ?j \<noteq> s"
    by (auto simp: separators_clean_def)
  have "\<not> doubled s (s # ?j)"
    using j d jc by (cases ?j) auto
  with c have "\<not> doubled s (c @ s # ?j)"
    by (simp add: doubled_append)
  with c j jc show ?case
    by (simp add: separators_clean_def)
qed

lemma good_token_tidy:
  assumes "good_token s t"
  shows "tidy s t"
proof -
  from assms have ne: "t \<noteq> []" and fr: "s \<notin> set t"
    by (simp_all add: good_token_def)
  from ne have "hd t \<in> set t" "last t \<in> set t"
    by simp_all
  with fr have "hd t \<noteq> s" "last t \<noteq> s"
    by auto
  with ne not_doubled_free [OF fr] show ?thesis
    by (simp add: tidy_def separators_clean_def)
qed

lemma parse_args_good:
  "parse_args args vec s = Some r \<Longrightarrow> \<forall>t\<in>set vec. good_token s t \<Longrightarrow> \<forall>t\<in>set r. good_token s t"
proof (induction args arbitrary: vec)
  case Nil
  then show ?case by simp
next
  case (Cons arg args)
  from Cons.prems(1) obtain vec' where pp: "parse_path (Some arg) vec s = Some vec'"
    and rest: "parse_args args vec' s = Some r"
    by (auto split: option.splits)
  have "\<forall>t\<in>set vec'. good_token s t"
  proof (cases "deref arg = NUL")
    case True
    with pp Cons.prems(2) show ?thesis
      by (simp add: parse_path_def)
  next
    case False
    with pp have "parse_loop s arg vec = Some vec'"
      by (simp add: parse_path_def)
    from parse_loop_appends [OF this] Cons.prems(2) show ?thesis
      by auto
  qed
  with Cons.IH [OF rest] show ?case .
qed

lemma parse_args_NUL: "parse_args args vec NUL = Some r \<Longrightarrow> r = vec"
proof (induction args arbitrary: vec)
  case Nil
  then show ?case by simp
next
  case (Cons arg args)
  from Cons.prems obtain vec' where pp: "parse_path (Some arg) vec NUL = Some vec'"
    and rest: "parse_args args vec' NUL = Some r"
    by (auto split: option.splits)
  from pp have "vec' = vec"
    by (auto simp: parse_path_def parse_loop_NUL split: if_splits)
  with Cons.IH [OF rest] show ?case by simp
qed

lemma parse_args_total: "s \<noteq> NUL \<Longrightarrow> parse_args args vec s \<noteq> None"
proof (induction args arbitrary: vec)
  case Nil
  then show ?case by simp
next
  case (Cons arg args)
  from parse_loop_total [OF Cons.prems, of arg vec]
  have "parse_path (Some arg) vec s \<noteq> None"
    by (simp add: parse_path_def)
  then obtain vec' where "parse_path (Some arg) vec s = Some vec'"
    by blast
  with Cons.IH [OF Cons.prems, of vec'] show ?case
    by simp
qed

lemma expanded_cases:
  obtains (same) "expanded e a t = t"
  | (home) h r where "expand a" "getenv e ''HOME'' = Some h" "t = ''~/'' @ r"
      "expanded e a t = h @ CHR ''/'' # r"
proof (cases "expand a \<and> take 2 t = ''~/'' \<and> getenv e ''HOME'' \<noteq> None")
  case False
  then have "expanded e a t = t"
    by (auto simp: expanded_def)
  then show ?thesis by (rule same)
next
  case True
  then obtain h where h: "getenv e ''HOME'' = Some h"
    by auto
  from True have "t = ''~/'' @ drop 2 t"
    by (metis append_take_drop_id)
  moreover from True h have "expanded e a t = h @ drop 1 t"
    by (simp add: expanded_def)
  ultimately have "expanded e a t = h @ CHR ''/'' # drop 2 t"
    by (metis append_Cons drop_Suc_Cons One_nat_def drop0 append_Nil)
  with True h \<open>t = ''~/'' @ drop 2 t\<close> show ?thesis
    by (intro home [of h "drop 2 t"]) auto
qed

lemma expanded_tidy:
  assumes t: "good_token s t"
    and h: "expand a \<longrightarrow> (\<forall>h. getenv e ''HOME'' = Some h \<longrightarrow> take 1 h \<noteq> [s] \<and> \<not> doubled s h)"
  shows "tidy s (expanded e a t)"
proof (cases e a t rule: expanded_cases)
  case same
  with good_token_tidy [OF t] show ?thesis by simp
next
  case (home h r)
  with t have fr: "s \<notin> set (CHR ''/'' # r)"
    by (auto simp: good_token_def)
  then have nd: "\<not> doubled s (CHR ''/'' # r)"
    by (rule not_doubled_free)
  from fr have hd: "hd (CHR ''/'' # r) \<noteq> s"
    by auto
  have "last (CHR ''/'' # r) \<in> set (CHR ''/'' # r)"
    by (rule last_in_set) simp
  with fr have la: "last (CHR ''/'' # r) \<noteq> s"
    by metis
  from h home have hh: "take 1 h \<noteq> [s]" "\<not> doubled s h"
    by auto
  then have "h \<noteq> [] \<Longrightarrow> hd h \<noteq> s"
    by (cases h) auto
  with hh nd hd la have "separators_clean s (h @ CHR ''/'' # r)"
    by (auto simp: separators_clean_def doubled_append hd_append simp del: last.simps doubled.simps)
  with home show ?thesis
    by (simp add: tidy_def)
qed

lemma expanded_arg_vec: "expanded e (a\<lparr>arg_vec := v\<rparr>) = expanded e a"
  by (rule ext) (simp add: expanded_def)

lemma admitted_arg_vec: "admitted e (a\<lparr>arg_vec := v\<rparr>) = admitted e a"
  by (rule ext) (simp add: admitted_def)

lemma throws_arg_vec: "throws (a\<lparr>arg_vec := v\<rparr>) = throws a"
  by (rule ext) (simp add: throws_def)

lemma survivors_arg_vec: "survivors e (a\<lparr>arg_vec := v\<rparr>) seen ts = survivors e a seen ts"
  by (simp add: survivors_def expanded_arg_vec admitted_arg_vec)

lemma survivors_tidy:
  assumes "\<forall>t\<in>set ts. good_token s t"
    and "expand a \<longrightarrow> (\<forall>h. getenv e ''HOME'' = Some h \<longrightarrow> take 1 h \<noteq> [s] \<and> \<not> doubled s h)"
  shows "\<forall>c\<in>set (survivors e a seen ts). tidy s c"
proof
  fix c
  assume "c \<in> set (survivors e a seen ts)"
  with set_survivors [of e a seen ts] obtain t where "t \<in> set ts" "c = expanded e a t"
    by auto
  with assms show "tidy s c"
    by (auto intro: expanded_tidy)
qed

lemma good_tokens_nonempty: "\<forall>t\<in>set ts. good_token s t \<Longrightarrow> [] \<notin> set ts"
  by (auto simp: good_token_def)

text \<open>
  Claim C2, as amended. The arguments are tokenized as \<^verbatim>\<open>main\<close> does and assembled. When
  the value of \<^verbatim>\<open>HOME\<close> does not start with the separator and has no two separators side
  by side (or expansion is off, or \<^verbatim>\<open>HOME\<close> is unset), every output has no separator at
  either end and no two side by side. For every separator but the terminator the
  tokenizer returns, and the assembler returns the joined survivors unless expansion
  meets the token \<^verbatim>\<open>~\<close>.
\<close>

theorem output_separators_clean:
  assumes "expand a \<longrightarrow>
      (\<forall>h. getenv e ''HOME'' = Some h \<longrightarrow> take 1 h \<noteq> [sep a] \<and> \<not> doubled (sep a) h)"
  shows "(\<forall>vec out. parse_args args [] (sep a) = Some vec \<longrightarrow>
            build_path e (a\<lparr>arg_vec := vec\<rparr>) = Inr out \<longrightarrow> separators_clean (sep a) out)
     \<and> (sep a \<noteq> NUL \<longrightarrow>
          (\<exists>vec. parse_args args [] (sep a) = Some vec
             \<and> build_path e (a\<lparr>arg_vec := vec\<rparr>) =
                 (if expand a \<and> ''~'' \<in> set vec then Inl OutOfRange
                  else Inr (join (sep a) (survivors e a {} vec)))))"
proof (intro conjI allI impI)
  fix vec out
  assume pa: "parse_args args [] (sep a) = Some vec"
    and bp: "build_path e (a\<lparr>arg_vec := vec\<rparr>) = Inr out"
  let ?a = "a\<lparr>arg_vec := vec\<rparr>"
  from parse_args_good [OF pa] have good: "\<forall>t\<in>set vec. good_token (sep a) t"
    by simp
  then have ne: "[] \<notin> set (arg_vec ?a)"
    by (simp add: good_tokens_nonempty)
  from build_path_join [OF ne bp] have out: "out = join (sep a) (survivors e ?a {} vec)"
    by simp
  from assms have "expand ?a \<longrightarrow>
      (\<forall>h. getenv e ''HOME'' = Some h \<longrightarrow> take 1 h \<noteq> [sep a] \<and> \<not> doubled (sep a) h)"
    by simp
  with good have "\<forall>c\<in>set (survivors e ?a {} vec). tidy (sep a) c"
    by (rule survivors_tidy)
  then show "separators_clean (sep a) out"
    unfolding out by (rule join_tidy)
next
  assume "sep a \<noteq> NUL"
  from parse_args_total [OF this, of args "[]"] obtain vec
    where pa: "parse_args args [] (sep a) = Some vec"
    by blast
  let ?a = "a\<lparr>arg_vec := vec\<rparr>"
  from parse_args_good [OF pa] have ne: "[] \<notin> set vec"
    by (simp add: good_tokens_nonempty)
  have sv: "survivors e ?a {} vec = survivors e a {} vec"
    by (rule survivors_arg_vec)
  have "build_path e ?a =
      (if expand a \<and> ''~'' \<in> set vec then Inl OutOfRange
       else Inr (join (sep a) (survivors e a {} vec)))"
    using survivors_nonempty [OF ne, of e a "{}"] ne
    by (simp add: build_path_eq throws_tilde append_paths_join sv)
  with pa show "\<exists>vec. parse_args args [] (sep a) = Some vec
             \<and> build_path e (a\<lparr>arg_vec := vec\<rparr>) =
                 (if expand a \<and> ''~'' \<in> set vec then Inl OutOfRange
                  else Inr (join (sep a) (survivors e a {} vec)))"
    by blast
qed

theorem output_separators_clean_witness:
  "parse_args [''::/usr/bin::/usr/local/bin:'', ''~/bin:''] [] (CHR '':'')
     = Some [''/usr/bin'', ''/usr/local/bin'', ''~/bin'']
   \<and> build_path env_alice
        \<lparr>arg_vec = [''/usr/bin'', ''/usr/local/bin'', ''~/bin''], sep = CHR '':'',
         allow_dups = False, force = False, help = False, expand = True\<rparr>
      = Inr ''/usr/bin:/usr/local/bin:/home/alice/bin''
   \<and> separators_clean (CHR '':'') ''/usr/bin:/usr/local/bin:/home/alice/bin''"
proof -
  let ?a = "\<lparr>arg_vec = [], sep = CHR '':'',
         allow_dups = False, force = False, help = False, expand = True\<rparr>"
  let ?args = "[''::/usr/bin::/usr/local/bin:'', ''~/bin:'']"
  have h: "expand ?a \<longrightarrow>
      (\<forall>h. getenv env_alice ''HOME'' = Some h \<longrightarrow> take 1 h \<noteq> [sep ?a] \<and> \<not> doubled (sep ?a) h)"
    by (simp add: env_alice_def)
  have p: "parse_args ?args [] (sep ?a) = Some [''/usr/bin'', ''/usr/local/bin'', ''~/bin'']"
    by (simp add: parse_path_def parse_loop.simps NUL_def)
  have b: "build_path env_alice (?a\<lparr>arg_vec := [''/usr/bin'', ''/usr/local/bin'', ''~/bin'']\<rparr>)
      = Inr ''/usr/bin:/usr/local/bin:/home/alice/bin''"
    by (simp add: build_path_def expand_tilde_def wants_check_def at_def is_dir_def env_alice_def)
  have "separators_clean (sep ?a) ''/usr/bin:/usr/local/bin:/home/alice/bin''"
    by (rule output_separators_clean [OF h, of ?args, THEN conjunct1, rule_format, OF p b])
  with p b show ?thesis
    by simp
qed

text \<open>
  The claim as stated fails: with the separator \<^verbatim>\<open>o\<close> and the home directory
  \<^verbatim>\<open>/root\<close>, the token \<^verbatim>\<open>~/bin\<close> expands to \<^verbatim>\<open>/root/bin\<close>, which is the output and holds
  two separators side by side.
\<close>

theorem output_separators_clean_counterexample:
  "parse_args [''~/bin''] [] (CHR ''o'') = Some [''~/bin'']
   \<and> build_path env_root
        \<lparr>arg_vec = [''~/bin''], sep = CHR ''o'', allow_dups = False, force = True,
         help = False, expand = True\<rparr>
      = Inr ''/root/bin''
   \<and> \<not> separators_clean (CHR ''o'') ''/root/bin''"
proof (intro conjI)
  show "parse_args [''~/bin''] [] (CHR ''o'') = Some [''~/bin'']"
    by (simp add: parse_path_def parse_loop.simps NUL_def)
  show "build_path env_root
        \<lparr>arg_vec = [''~/bin''], sep = CHR ''o'', allow_dups = False, force = True,
         help = False, expand = True\<rparr>
      = Inr ''/root/bin''"
    by (simp add: build_path_def expand_tilde_def wants_check_def at_def env_root_def)
  show "\<not> separators_clean (CHR ''o'') ''/root/bin''"
    by (simp add: separators_clean_def)
qed

section \<open>Assembling the output again\<close>

lemma parse_loop_last:
  assumes "good_token s t" and "s \<noteq> NUL"
  shows "parse_loop s t vec = Some (vec @ [t])"
proof -
  from assms obtain c cs where t: "t = c # cs" and c: "c \<noteq> s" "c \<noteq> NUL"
    and cs: "s \<notin> set cs" "NUL \<notin> set cs"
    by (cases t) (auto simp: good_token_def)
  have sk: "skip_seps s t = Some t"
    using t c by simp
  from cs have fs: "find_stop s cs = (cs, [])"
    by (induction cs) auto
  have "parse_loop s t vec = parse_loop s [] (vec @ [t])"
    using sk fs t c by (subst parse_loop.simps) simp
  also have "\<dots> = Some (vec @ [t])"
    using assms(2) by (subst parse_loop.simps) simp
  finally show ?thesis .
qed

lemma parse_loop_join:
  "s \<noteq> NUL \<Longrightarrow> \<forall>c\<in>set cs. good_token s c \<Longrightarrow>
   parse_loop s (join s cs) vec = Some (vec @ cs)"
proof (induction s cs arbitrary: vec rule: join.induct)
  case (1 s)
  then show ?case
    by (subst parse_loop.simps) simp
next
  case (2 s c)
  then show ?case
    using parse_loop_last [of s c vec] by simp
next
  case (3 s c d cs)
  then have c: "good_token s c" and rest: "\<forall>c\<in>set (d # cs). good_token s c"
    by auto
  have "parse_loop s (join s (c # d # cs)) vec = parse_loop s (join s (d # cs)) (vec @ [c])"
    using parse_loop_cons [OF c "3.prems"(1)] by simp
  with "3.IH" [OF "3.prems"(1) rest, of "vec @ [c]"] show ?case
    by simp
qed

lemma parse_path_join:
  assumes "s \<noteq> NUL \<or> cs = []" and "\<forall>c\<in>set cs. good_token s c"
  shows "parse_path (Some (join s cs)) [] s = Some cs"
proof (cases cs)
  case Nil
  then show ?thesis by (simp add: parse_path_def)
next
  case (Cons c cs')
  with assms have s: "s \<noteq> NUL" by simp
  from Cons assms(2) have "[] \<notin> set cs" "cs \<noteq> []" "NUL \<notin> set (hd cs)" "hd cs \<noteq> []"
    by (auto simp: good_token_def)
  with join_nonempty [of cs s] have "join s cs \<noteq> []" "hd (join s cs) \<in> set (hd cs)"
    by auto
  with \<open>NUL \<notin> set (hd cs)\<close> have "deref (join s cs) \<noteq> NUL"
    by (cases "join s cs") auto
  with parse_loop_join [OF s assms(2), of "[]"] show ?thesis
    by (simp add: parse_path_def)
qed

lemma first_seen_distinct: "distinct cs \<Longrightarrow> set cs \<inter> seen = {} \<Longrightarrow> first_seen seen cs = cs"
  by (induction cs arbitrary: seen) auto

lemma expanded_good:
  assumes t: "good_token s t"
    and h: "expand a \<longrightarrow> (\<forall>h. getenv e ''HOME'' = Some h \<longrightarrow> s \<notin> set h \<and> NUL \<notin> set h)"
  shows "good_token s (expanded e a t)"
proof (cases e a t rule: expanded_cases)
  case same
  with t show ?thesis by simp
next
  case (home h r)
  with t h show ?thesis
    by (auto simp: good_token_def)
qed

lemma expanded_stable:
  assumes "expand a \<longrightarrow> (\<forall>h. getenv e ''HOME'' = Some h \<longrightarrow> take 2 h \<noteq> ''~/'')"
  shows "expanded e a (expanded e a t) = expanded e a t"
proof (cases e a t rule: expanded_cases)
  case same
  then show ?thesis by simp
next
  case (home h r)
  with assms have nt: "take 2 h \<noteq> ''~/''"
    by simp
  show ?thesis
  proof (cases "h = ''~''")
    case True
    with home show ?thesis
      by (simp add: expanded_def)
  next
    case False
    with nt have "take 2 (h @ CHR ''/'' # r) \<noteq> ''~/''"
      by (cases h; cases "tl h") auto
    with home show ?thesis
      by (simp add: expanded_def)
  qed
qed

lemma expanded_not_tilde:
  assumes "t \<noteq> ''~''"
  shows "expanded e a t \<noteq> ''~''"
proof (cases e a t rule: expanded_cases)
  case same
  with assms show ?thesis by simp
next
  case (home h r)
  then show ?thesis
    by (cases h) auto
qed

lemma survivors_survivors:
  assumes "expand a \<longrightarrow> (\<forall>h. getenv e ''HOME'' = Some h \<longrightarrow> take 2 h \<noteq> ''~/'')"
  shows "survivors e a {} (survivors e a {} ts) = survivors e a {} ts"
proof -
  let ?cs = "survivors e a {} ts"
  have "\<forall>c\<in>set ?cs. expanded e a c = c"
    using set_survivors [of e a "{}" ts] expanded_stable [OF assms] by auto
  then have m: "map (expanded e a) ?cs = ?cs"
    by (simp add: map_idI)
  have f: "filter (admitted e a) ?cs = ?cs"
    by (simp add: survivors_admitted)
  have d: "\<not> allow_dups a \<Longrightarrow> first_seen {} ?cs = ?cs"
    by (rule first_seen_distinct) (simp_all add: survivors_def distinct_first_seen)
  have "survivors e a {} ?cs = (if allow_dups a then ?cs else first_seen {} ?cs)"
    by (subst survivors_def) (simp only: m f Let_def)
  with d show ?thesis
    by (cases "allow_dups a") simp_all
qed

text \<open>
  Claim C3, as amended. The arguments are tokenized as \<^verbatim>\<open>main\<close> does and assembled; the
  output is then given back as the only argument, under the same options. When the value
  of \<^verbatim>\<open>HOME\<close> holds no separator and does not itself start with \<^verbatim>\<open>~/\<close> (or expansion is
  off, or \<^verbatim>\<open>HOME\<close> is unset), the second run returns the output of the first, so its
  tokens are the tokens the first output splits into.
\<close>

theorem assembly_idempotent:
  assumes home: "expand a \<longrightarrow>
      (\<forall>h. getenv e ''HOME'' = Some h \<longrightarrow> sep a \<notin> set h \<and> NUL \<notin> set h \<and> take 2 h \<noteq> ''~/'')"
    and pa: "parse_args args [] (sep a) = Some vec"
    and bp: "build_path e (a\<lparr>arg_vec := vec\<rparr>) = Inr out"
  shows "\<exists>toks. parse_args [out] [] (sep a) = Some toks
           \<and> build_path e (a\<lparr>arg_vec := toks\<rparr>) = Inr out"
proof -
  let ?s = "sep a"
  let ?cs = "survivors e a {} vec"
  from parse_args_good [OF pa] have good: "\<forall>t\<in>set vec. good_token ?s t"
    by simp
  then have ne: "[] \<notin> set vec"
    by (rule good_tokens_nonempty)
  from bp have nothrow: "\<not> (\<exists>t\<in>set vec. throws a t)"
    by (auto simp: build_path_eq throws_arg_vec split: if_splits)
  from build_path_join [of "a\<lparr>arg_vec := vec\<rparr>" e out] ne bp
  have out: "out = join ?s ?cs"
    by (simp add: survivors_arg_vec)
  have cs_good: "\<forall>c\<in>set ?cs. good_token ?s c"
  proof
    fix c
    assume "c \<in> set ?cs"
    with set_survivors [of e a "{}" vec] obtain t where "t \<in> set vec" "c = expanded e a t"
      by auto
    with good home show "good_token ?s c"
      by (auto intro: expanded_good)
  qed
  have "?s \<noteq> NUL \<or> ?cs = []"
  proof (cases "?s = NUL")
    case True
    with pa parse_args_NUL [of args "[]" vec] have "vec = []"
      by simp
    then show ?thesis
      by (simp add: survivors_def)
  next
    case False
    then show ?thesis by simp
  qed
  from parse_path_join [OF this cs_good] have split: "parse_args [out] [] ?s = Some ?cs"
    by (simp add: out)
  have cs_ne: "[] \<notin> set ?cs"
    using ne by (rule survivors_nonempty)
  have "\<not> (\<exists>c\<in>set ?cs. throws a c)"
  proof
    assume "\<exists>c\<in>set ?cs. throws a c"
    then obtain c where c: "c \<in> set ?cs" "throws a c"
      by blast
    with cs_ne have "expand a" "c = ''~''"
      by (auto simp: throws_def split: if_splits)
    moreover from c(1) set_survivors [of e a "{}" vec]
    obtain t where t: "t \<in> set vec" "c = expanded e a t"
      by auto
    moreover from t nothrow \<open>expand a\<close> have "t \<noteq> ''~''"
      by (auto simp: throws_def)
    ultimately show False
      using expanded_not_tilde [of t e a] by simp
  qed
  moreover from home have "survivors e a {} ?cs = ?cs"
    by (intro survivors_survivors) simp
  ultimately have "build_path e (a\<lparr>arg_vec := ?cs\<rparr>) = Inr out"
    using cs_ne by (simp add: build_path_eq throws_arg_vec survivors_arg_vec append_paths_join out)
  with split show ?thesis
    by blast
qed

theorem assembly_idempotent_witness:
  "parse_args ['':/usr/bin::~/bin'', ''/usr/bin''] [] (CHR '':'')
     = Some [''/usr/bin'', ''~/bin'', ''/usr/bin'']
   \<and> build_path env_alice
        \<lparr>arg_vec = [''/usr/bin'', ''~/bin'', ''/usr/bin''], sep = CHR '':'',
         allow_dups = False, force = False, help = False, expand = True\<rparr>
      = Inr ''/usr/bin:/home/alice/bin''
   \<and> (\<exists>toks. parse_args [''/usr/bin:/home/alice/bin''] [] (CHR '':'') = Some toks
         \<and> build_path env_alice
              \<lparr>arg_vec = toks, sep = CHR '':'',
               allow_dups = False, force = False, help = False, expand = True\<rparr>
            = Inr ''/usr/bin:/home/alice/bin'')"
proof -
  let ?a = "\<lparr>arg_vec = [], sep = CHR '':'',
         allow_dups = False, force = False, help = False, expand = True\<rparr>"
  have h: "expand ?a \<longrightarrow> (\<forall>h. getenv env_alice ''HOME'' = Some h \<longrightarrow>
        sep ?a \<notin> set h \<and> NUL \<notin> set h \<and> take 2 h \<noteq> ''~/'')"
    by (simp add: env_alice_def NUL_def)
  have p: "parse_args ['':/usr/bin::~/bin'', ''/usr/bin''] [] (sep ?a)
      = Some [''/usr/bin'', ''~/bin'', ''/usr/bin'']"
    by (simp add: parse_path_def parse_loop.simps NUL_def)
  have b: "build_path env_alice (?a\<lparr>arg_vec := [''/usr/bin'', ''~/bin'', ''/usr/bin'']\<rparr>)
      = Inr ''/usr/bin:/home/alice/bin''"
    by (simp add: build_path_def expand_tilde_def wants_check_def at_def is_dir_def env_alice_def)
  from assembly_idempotent [OF h p b] p b show ?thesis
    by simp
qed

text \<open>
  The claim as stated fails in two ways. With the separator \<^verbatim>\<open>l\<close> and the home directory
  \<^verbatim>\<open>/home/alice\<close>, the output \<^verbatim>\<open>/home/alice/bin\<close> splits into \<^verbatim>\<open>/home/a\<close> and \<^verbatim>\<open>ice/bin\<close>,
  and the first is no directory: the second run returns \<^verbatim>\<open>ice/bin\<close>. With \<^verbatim>\<open>HOME\<close> set to
  \<^verbatim>\<open>~/alice\<close>, the output \<^verbatim>\<open>~/alice/bin\<close> is expanded once more by the second run.
\<close>

theorem assembly_idempotent_counterexample:
  "(parse_args [''~/bin''] [] (CHR ''l'') = Some [''~/bin'']
    \<and> build_path env_alice
         \<lparr>arg_vec = [''~/bin''], sep = CHR ''l'', allow_dups = False, force = False,
          help = False, expand = True\<rparr>
       = Inr ''/home/alice/bin''
    \<and> parse_args [''/home/alice/bin''] [] (CHR ''l'') = Some [''/home/a'', ''ice/bin'']
    \<and> build_path env_alice
         \<lparr>arg_vec = [''/home/a'', ''ice/bin''], sep = CHR ''l'', allow_dups = False,
          force = False, help = False, expand = True\<rparr>
       = Inr ''ice/bin'')
   \<and> (parse_args [''~/bin''] [] (CHR '':'') = Some [''~/bin'']
    \<and> build_path env_tilde
         \<lparr>arg_vec = [''~/bin''], sep = CHR '':'', allow_dups = False, force = False,
          help = False, expand = True\<rparr>
       = Inr ''~/alice/bin''
    \<and> parse_args [''~/alice/bin''] [] (CHR '':'') = Some [''~/alice/bin'']
    \<and> build_path env_tilde
         \<lparr>arg_vec = [''~/alice/bin''], sep = CHR '':'', allow_dups = False, force = False,
          help = False, expand = True\<rparr>
       = Inr ''~/alice/alice/bin'')"
proof (intro conjI)
  show "parse_args [''~/bin''] [] (CHR ''l'') = Some [''~/bin'']"
    by (simp add: parse_path_def parse_loop.simps NUL_def)
  show "build_path env_alice
         \<lparr>arg_vec = [''~/bin''], sep = CHR ''l'', allow_dups = False, force = False,
          help = False, expand = True\<rparr>
       = Inr ''/home/alice/bin''"
    by (simp add: build_path_def expand_tilde_def wants_check_def at_def is_dir_def env_alice_def)
  show "parse_args [''/home/alice/bin''] [] (CHR ''l'') = Some [''/home/a'', ''ice/bin'']"
    by (simp add: parse_path_def parse_loop.simps NUL_def)
  show "build_path env_alice
         \<lparr>arg_vec = [''/home/a'', ''ice/bin''], sep = CHR ''l'', allow_dups = False,
          force = False, help = False, expand = True\<rparr>
       = Inr ''ice/bin''"
    by (simp add: build_path_def expand_tilde_def wants_check_def at_def is_dir_def env_alice_def)
  show "parse_args [''~/bin''] [] (CHR '':'') = Some [''~/bin'']"
    by (simp add: parse_path_def parse_loop.simps NUL_def)
  show "build_path env_tilde
         \<lparr>arg_vec = [''~/bin''], sep = CHR '':'', allow_dups = False, force = False,
          help = False, expand = True\<rparr>
       = Inr ''~/alice/bin''"
    by (simp add: build_path_def expand_tilde_def wants_check_def at_def is_dir_def env_tilde_def)
  show "parse_args [''~/alice/bin''] [] (CHR '':'') = Some [''~/alice/bin'']"
    by (simp add: parse_path_def parse_loop.simps NUL_def)
  show "build_path env_tilde
         \<lparr>arg_vec = [''~/alice/bin''], sep = CHR '':'', allow_dups = False, force = False,
          help = False, expand = True\<rparr>
       = Inr ''~/alice/alice/bin''"
    by (simp add: build_path_def expand_tilde_def wants_check_def at_def is_dir_def env_tilde_def)
qed

section \<open>The command line\<close>

lemma getopt_trace_None: "getopt perm g = (None, g') \<Longrightarrow> getopt_trace perm g = []"
  by (subst getopt_trace.simps) simp

lemma getopt_trace_Some:
  "getopt perm g = (Some opt, g') \<Longrightarrow>
   getopt_trace perm g = (opt, optarg g') # getopt_trace perm g'"
  by (subst getopt_trace.simps) simp

lemma get_opts_loop_None: "getopt perm g = (None, g') \<Longrightarrow> get_opts_loop perm g a sf = Inr (a, g')"
  by (subst get_opts_loop.simps) simp

lemma get_opts_loop_Some:
  "getopt perm g = (Some opt, g') \<Longrightarrow>
   get_opts_loop perm g a sf =
     (if opt = CHR ''d'' then get_opts_loop perm g' (a\<lparr>allow_dups := True\<rparr>) sf
      else if opt = CHR ''f'' then get_opts_loop perm g' (a\<lparr>force := True\<rparr>) sf
      else if opt = CHR ''h'' then get_opts_loop perm g' (a\<lparr>help := True\<rparr>) sf
      else if opt = CHR ''s'' then
        (if NUL = deref (optarg g')
           then Inl (RuntimeError ''Specified separator is an empty string'')
         else if NUL \<noteq> deref (tl (optarg g'))
           then Inl (RuntimeError ''Specified separator consists of multiple characters'')
         else if sf \<and> deref (optarg g') \<noteq> sep a
           then Inl (RuntimeError ''Conflicting specifications for separator character'')
         else get_opts_loop perm g' (a\<lparr>sep := deref (optarg g')\<rparr>) True)
      else if opt = CHR ''x'' then get_opts_loop perm g' (a\<lparr>expand := True\<rparr>) sf
      else if opt = CHR '':'' then
        Inl (RuntimeError (''Required argument missing on -'' @ [optopt g'] @ '' option''))
      else if opt = CHR ''?'' then
        Inl (RuntimeError (''Invalid option -'' @ [optopt g'] @ '' on command line''))
      else
        Inl (RuntimeError (''Internal error: unexpected value ''
               @ [CHR 0x27, optopt g', CHR 0x27] @ '' of optopt'')))"
  by (subst get_opts_loop.simps) simp

lemma get_opts_loop_throws:
  "get_opts_loop perm g a sf = Inl x \<Longrightarrow> \<exists>what. x = RuntimeError what"
proof (induction "unread g" arbitrary: g a sf rule: less_induct)
  case less
  obtain r g' where go: "getopt perm g = (r, g')"
    by (cases "getopt perm g")
  show ?case
  proof (cases r)
    case None
    with go less.prems show ?thesis
      by (simp add: get_opts_loop_None)
  next
    case (Some opt)
    with go have go': "getopt perm g = (Some opt, g')" by simp
    note IH = less.hyps [OF getopt_unread [OF go']]
    from less.prems show ?thesis
      unfolding get_opts_loop_Some [OF go']
      by (auto split: if_splits dest: IH)
  qed
qed

lemma get_opts_loop_result:
  "get_opts_loop perm g a sf = Inr (a', gf) \<Longrightarrow>
     (\<forall>arg. (CHR ''s'', arg) \<in> set (getopt_trace perm g) \<longrightarrow> deref arg = sep a')
     \<and> (sf \<longrightarrow> sep a' = sep a)
     \<and> (sep a \<noteq> NUL \<longrightarrow> sep a' \<noteq> NUL)
     \<and> help a' = (help a \<or> (\<exists>arg. (CHR ''h'', arg) \<in> set (getopt_trace perm g)))
     \<and> arg_vec a' = arg_vec a"
proof (induction "unread g" arbitrary: g a sf rule: less_induct)
  case less
  obtain r g' where go: "getopt perm g = (r, g')"
    by (cases "getopt perm g")
  show ?case
  proof (cases r)
    case None
    with go less.prems show ?thesis
      by (simp add: get_opts_loop_None getopt_trace_None)
  next
    case (Some opt)
    with go have go': "getopt perm g = (Some opt, g')" by simp
    note IH = less.hyps [OF getopt_unread [OF go']]
    note tr = getopt_trace_Some [OF go']
    note lp = less.prems [unfolded get_opts_loop_Some [OF go']]
    consider (d) "opt = CHR ''d''" | (f) "opt = CHR ''f''" | (h) "opt = CHR ''h''"
      | (s) "opt = CHR ''s''" | (x) "opt = CHR ''x''"
      | (other) "opt \<notin> {CHR ''d'', CHR ''f'', CHR ''h'', CHR ''s'', CHR ''x''}"
      by auto
    then show ?thesis
    proof cases
      case d
      with lp have "get_opts_loop perm g' (a\<lparr>allow_dups := True\<rparr>) sf = Inr (a', gf)"
        by simp
      from IH [OF this] d show ?thesis
        by (simp add: tr)
    next
      case f
      with lp have "get_opts_loop perm g' (a\<lparr>force := True\<rparr>) sf = Inr (a', gf)"
        by simp
      from IH [OF this] f show ?thesis
        by (simp add: tr)
    next
      case h
      with lp have "get_opts_loop perm g' (a\<lparr>help := True\<rparr>) sf = Inr (a', gf)"
        by simp
      from IH [OF this] h show ?thesis
        by (auto simp: tr)
    next
      case x
      with lp have "get_opts_loop perm g' (a\<lparr>expand := True\<rparr>) sf = Inr (a', gf)"
        by simp
      from IH [OF this] x show ?thesis
        by (simp add: tr)
    next
      case s
      with lp have ok: "NUL \<noteq> deref (optarg g')" "\<not> (sf \<and> deref (optarg g') \<noteq> sep a)"
        and rec: "get_opts_loop perm g' (a\<lparr>sep := deref (optarg g')\<rparr>) True = Inr (a', gf)"
        by (auto split: if_splits)
      from IH [OF rec] s ok show ?thesis
        by (auto simp: tr)
    next
      case other
      with lp show ?thesis
        by (auto split: if_splits)
    qed
  qed
qed

lemma DEFAULT_SEP_not_NUL: "DEFAULT_SEP \<noteq> NUL"
  by (simp add: DEFAULT_SEP_def NUL_def)

lemma get_opts_throws: "get_opts e args pa = Inl x \<Longrightarrow> \<exists>what. x = RuntimeError what"
  by (auto simp: get_opts_def split: sum.splits dest: get_opts_loop_throws)

lemma get_opts_result:
  assumes "get_opts e args pa = Inr (a, rest)"
  shows "(\<forall>arg. (CHR ''s'', arg) \<in> set (options_given e args) \<longrightarrow> deref arg = sep a)
     \<and> sep a \<noteq> NUL
     \<and> help a = (\<exists>arg. (CHR ''h'', arg) \<in> set (options_given e args))
     \<and> arg_vec a = arg_vec pa"
proof -
  from assms obtain gf where
    "get_opts_loop (getopt_permutes e) (getopt_start args)
       (pa\<lparr>sep := DEFAULT_SEP, allow_dups := False, force := False, help := False,
           expand := False\<rparr>) False = Inr (a, gf)"
    by (auto simp: get_opts_def split: sum.splits)
  from get_opts_loop_result [OF this] DEFAULT_SEP_not_NUL show ?thesis
    by (simp add: options_given_def)
qed

text \<open>
  \<^verbatim>\<open>main\<close> never leaves a buffer: the separator \<^verbatim>\<open>get_opts\<close> returns is not the
  terminator, so the tokenizer returns on every argument.
\<close>

lemma main_defined: "main e prog args \<noteq> None"
proof (cases "get_opts e args new_path_args")
  case (Inl x)
  then show ?thesis by (simp add: main_def)
next
  case (Inr r)
  obtain a rest where r: "r = (a, rest)" by (cases r)
  with Inr get_opts_result [of e args new_path_args a rest] have "sep a \<noteq> NUL"
    by simp
  from parse_args_total [OF this, of rest "arg_vec a"] Inr r show ?thesis
    by (auto simp: main_def split: sum.splits)
qed

lemmas getopt_eval =
  options_given_def getopt_trace.simps get_opts_def get_opts_loop.simps getopt_def
  getopt_start_def take_option_def optstring_def is_option_def NUL_def DEFAULT_SEP_def
  new_path_args_def

text \<open>
  Claim C8. When \<^verbatim>\<open>getopt\<close> reports the option \<^verbatim>\<open>-s\<close> twice with two different
  one-character arguments, \<^verbatim>\<open>get_opts\<close> throws a \<^verbatim>\<open>runtime_error\<close>, so \<^verbatim>\<open>main\<close> never
  reaches the tokenizer or the assembler: it writes the program name and the message to
  standard error, nothing to standard output, and the exit code is 1.
\<close>

theorem conflicting_separators_rejected:
  assumes "options_given e args = before @ (CHR ''s'', [c1]) # between @ (CHR ''s'', [c2]) # after"
    and "c1 \<noteq> c2"
  shows "\<exists>what. get_opts e args new_path_args = Inl (RuntimeError what)
     \<and> main e prog args =
         Some \<lparr>exit_code = 1, stdout = [], stderr = basename e prog @ '': '' @ what @ ''\<newline>''\<rparr>"
proof (cases "get_opts e args new_path_args")
  case (Inl x)
  with get_opts_throws [OF Inl] show ?thesis
    by (auto simp: main_def)
next
  case (Inr r)
  obtain a rest where r: "r = (a, rest)" by (cases r)
  with Inr have all: "\<forall>arg. (CHR ''s'', arg) \<in> set (options_given e args) \<longrightarrow> deref arg = sep a"
    using get_opts_result [of e args new_path_args a rest] by simp
  from assms(1) have "(CHR ''s'', [c1]) \<in> set (options_given e args)"
    and "(CHR ''s'', [c2]) \<in> set (options_given e args)"
    by simp_all
  with all have "deref [c1] = sep a" "deref [c2] = sep a"
    by blast+
  with assms(2) show ?thesis
    by simp
qed

theorem conflicting_separators_rejected_witness:
  "options_given env_alice [''-s'', '':'', ''-s'', '';'', ''/usr/bin'']
     = [] @ (CHR ''s'', '':'') # [] @ (CHR ''s'', '';'') # []
   \<and> (\<exists>what. get_opts env_alice [''-s'', '':'', ''-s'', '';'', ''/usr/bin''] new_path_args
                = Inl (RuntimeError what)
         \<and> main env_alice ''catpath'' [''-s'', '':'', ''-s'', '';'', ''/usr/bin'']
             = Some \<lparr>exit_code = 1, stdout = [],
                     stderr = basename env_alice ''catpath'' @ '': '' @ what @ ''\<newline>''\<rparr>)"
proof -
  have t: "options_given env_alice [''-s'', '':'', ''-s'', '';'', ''/usr/bin'']
     = [] @ (CHR ''s'', '':'') # [] @ (CHR ''s'', '';'') # []"
    by (simp add: getopt_eval env_alice_def)
  have d: "CHR '':'' \<noteq> CHR '';''"
    by simp
  from conflicting_separators_rejected [OF t d, of "''catpath''"] t show ?thesis
    by blast
qed

text \<open>
  Claim C9, as amended. When \<^verbatim>\<open>getopt\<close> reports the option \<^verbatim>\<open>-h\<close> and \<^verbatim>\<open>get_opts\<close> returns
  without throwing, \<^verbatim>\<open>main\<close> writes the help text to standard output and the exit code is
  0, whatever the path arguments and the file system are.
\<close>

theorem help_after_valid_options:
  assumes "(CHR ''h'', arg) \<in> set (options_given e args)"
    and "get_opts e args new_path_args = Inr (a, rest)"
  shows "main e prog args =
     Some \<lparr>exit_code = 0, stdout = show_help (basename e prog), stderr = []\<rparr>"
proof -
  from get_opts_result [OF assms(2)] assms(1) have "help a"
    by blast
  with assms(2) show ?thesis
    by (simp add: main_def)
qed

theorem help_after_valid_options_witness:
  "(CHR ''h'', []) \<in> set (options_given env_alice [''-f'', ''-h'', ''/usr/bin''])
   \<and> get_opts env_alice [''-f'', ''-h'', ''/usr/bin''] new_path_args
       = Inr (\<lparr>arg_vec = [], sep = CHR '':'', allow_dups = False, force = True, help = True,
               expand = False\<rparr>, [''/usr/bin''])
   \<and> main env_alice ''catpath'' [''-f'', ''-h'', ''/usr/bin'']
       = Some \<lparr>exit_code = 0, stdout = show_help (basename env_alice ''catpath''), stderr = []\<rparr>"
proof -
  have t: "(CHR ''h'', []) \<in> set (options_given env_alice [''-f'', ''-h'', ''/usr/bin''])"
    by (simp add: getopt_eval env_alice_def)
  have g: "get_opts env_alice [''-f'', ''-h'', ''/usr/bin''] new_path_args
       = Inr (\<lparr>arg_vec = [], sep = CHR '':'', allow_dups = False, force = True, help = True,
               expand = False\<rparr>, [''/usr/bin''])"
    by (simp add: getopt_eval env_alice_def)
  from help_after_valid_options [OF t g, of "''catpath''"] t g show ?thesis
    by blast
qed

text \<open>
  The claim as stated fails: \<^verbatim>\<open>get_opts\<close> reads every option before \<^verbatim>\<open>main\<close> looks at the
  help flag, so an invalid option after \<^verbatim>\<open>-h\<close> ends the run with the exit code 1 and no
  help text.
\<close>

theorem help_after_valid_options_counterexample:
  "(CHR ''h'', []) \<in> set (options_given env_alice [''-h'', ''-z'', ''/usr/bin''])
   \<and> main env_alice ''catpath'' [''-h'', ''-z'', ''/usr/bin'']
       = Some \<lparr>exit_code = 1, stdout = [],
               stderr = ''catpath: Invalid option -z on command line\<newline>''\<rparr>"
proof
  show "(CHR ''h'', []) \<in> set (options_given env_alice [''-h'', ''-z'', ''/usr/bin''])"
    by (simp add: getopt_eval env_alice_def)
  show "main env_alice ''catpath'' [''-h'', ''-z'', ''/usr/bin'']
       = Some \<lparr>exit_code = 1, stdout = [],
               stderr = ''catpath: Invalid option -z on command line\<newline>''\<rparr>"
    by (simp add: main_def getopt_eval env_alice_def)
qed

text \<open>
  Claim C10. When \<^verbatim>\<open>get_opts\<close> returns without throwing, the help flag is off and no
  argument is left after the options, \<^verbatim>\<open>main\<close> writes a single newline to standard output
  and the exit code is 0.
\<close>

theorem no_paths_prints_newline:
  assumes "get_opts e args new_path_args = Inr (a, [])" and "\<not> help a"
  shows "main e prog args = Some \<lparr>exit_code = 0, stdout = ''\<newline>'', stderr = []\<rparr>"
proof -
  from get_opts_result [OF assms(1)] have "arg_vec a = []"
    by (simp add: new_path_args_def)
  then have "a\<lparr>arg_vec := []\<rparr> = a"
    by simp
  with assms \<open>arg_vec a = []\<close> show ?thesis
    by (simp add: main_def build_path_def)
qed

theorem no_paths_prints_newline_witness:
  "get_opts env_alice [''-f'', ''-s'', '';''] new_path_args
       = Inr (\<lparr>arg_vec = [], sep = CHR '';'', allow_dups = False, force = True, help = False,
               expand = False\<rparr>, [])
   \<and> main env_alice ''catpath'' [''-f'', ''-s'', '';'']
       = Some \<lparr>exit_code = 0, stdout = ''\<newline>'', stderr = []\<rparr>"
proof -
  have g: "get_opts env_alice [''-f'', ''-s'', '';''] new_path_args
       = Inr (\<lparr>arg_vec = [], sep = CHR '';'', allow_dups = False, force = True, help = False,
               expand = False\<rparr>, [])"
    by (simp add: getopt_eval env_alice_def)
  have h: "\<not> help \<lparr>arg_vec = [], sep = CHR '';'', allow_dups = False, force = True, help = False,
               expand = False\<rparr>"
    by simp
  from no_paths_prints_newline [OF g h, of "''catpath''"] g show ?thesis
    by blast
qed

end
